theory Spec2Isabelle
  imports Main
begin

section \<open>Python strings and characters\<close>

text \<open>
  File and folder names are modelled as \<^typ>\<open>string\<close>: a character is a code point below
  256 (Latin-1). On these code points the classes of Python's \<^verbatim>\<open>re\<close> module for
  \<^verbatim>\<open>str\<close> patterns are: \<^verbatim>\<open>\d\<close>, the digits 0 to 9; \<^verbatim>\<open>\s\<close>, which is also the
  set that \<^verbatim>\<open>str.strip()\<close> removes, tab, line feed, vertical tab, form feed, carriage
  return, the separators 0x1C to 0x1F, the space, next line (0x85) and the no-break space
  (0xA0); \<^verbatim>\<open>\w\<close>, the underscore and every alphanumeric character: the letters and
  digits of ASCII, the ordinal indicators 0xAA and 0xBA, the superscript digits 0xB2, 0xB3
  and 0xB9, the micro sign 0xB5, the fractions 0xBC to 0xBE, and the letters 0xC0 to 0xFF
  without the signs 0xD7 and 0xF7.
\<close>

definition is_digit :: "char \<Rightarrow> bool" where
  "is_digit c = (c \<in> set ''0123456789'')"

definition is_space :: "char \<Rightarrow> bool" where
  "is_space c = (c \<in> set [CHR 0x09, CHR 0x0A, CHR 0x0B, CHR 0x0C, CHR 0x0D,
                            CHR 0x1C, CHR 0x1D, CHR 0x1E, CHR 0x1F, CHR '' '',
                            CHR 0x85, CHR 0xA0])"

definition latin1_alnum :: "char list" where
  "latin1_alnum =
     [CHR 0xAA, CHR 0xB2, CHR 0xB3, CHR 0xB5, CHR 0xB9, CHR 0xBA, CHR 0xBC, CHR 0xBD, CHR 0xBE,
      CHR 0xC0, CHR 0xC1, CHR 0xC2, CHR 0xC3, CHR 0xC4, CHR 0xC5, CHR 0xC6, CHR 0xC7,
      CHR 0xC8, CHR 0xC9, CHR 0xCA, CHR 0xCB, CHR 0xCC, CHR 0xCD, CHR 0xCE, CHR 0xCF,
      CHR 0xD0, CHR 0xD1, CHR 0xD2, CHR 0xD3, CHR 0xD4, CHR 0xD5, CHR 0xD6,
      CHR 0xD8, CHR 0xD9, CHR 0xDA, CHR 0xDB, CHR 0xDC, CHR 0xDD, CHR 0xDE, CHR 0xDF,
      CHR 0xE0, CHR 0xE1, CHR 0xE2, CHR 0xE3, CHR 0xE4, CHR 0xE5, CHR 0xE6, CHR 0xE7,
      CHR 0xE8, CHR 0xE9, CHR 0xEA, CHR 0xEB, CHR 0xEC, CHR 0xED, CHR 0xEE, CHR 0xEF,
      CHR 0xF0, CHR 0xF1, CHR 0xF2, CHR 0xF3, CHR 0xF4, CHR 0xF5, CHR 0xF6,
      CHR 0xF8, CHR 0xF9, CHR 0xFA, CHR 0xFB, CHR 0xFC, CHR 0xFD, CHR 0xFE, CHR 0xFF]"

definition is_word :: "char \<Rightarrow> bool" where
  "is_word c = (c \<in> set (''abcdefghijklmnopqrstuvwxyz'' @ ''ABCDEFGHIJKLMNOPQRSTUVWXYZ''
                            @ ''0123456789'' @ ''_'' @ latin1_alnum))"

text \<open>\<^verbatim>\<open>s.strip()\<close> and \<^verbatim>\<open>s.strip(chars)\<close>: the characters of the class are dropped at both ends.\<close>

definition strip :: "(char \<Rightarrow> bool) \<Rightarrow> string \<Rightarrow> string" where
  "strip P s = rev (dropWhile P (rev (dropWhile P s)))"

text \<open>
  \<^verbatim>\<open>re.sub(r'[class]+', repl, s)\<close>: the matches of a one-or-more character class are the
  maximal runs of characters of the class, found from left to right; each is replaced
  by \<open>repl\<close>.
\<close>

function re_sub_runs :: "(char \<Rightarrow> bool) \<Rightarrow> string \<Rightarrow> string \<Rightarrow> string" where
  "re_sub_runs P repl [] = []"
| "re_sub_runs P repl (c # cs) =
     (if P c then repl @ re_sub_runs P repl (dropWhile P cs)
      else c # re_sub_runs P repl cs)"
  by pat_completeness auto
termination
  by (relation "measure (\<lambda>(P, repl, s). length s)")
     (auto simp: length_dropWhile_le less_Suc_eq_le)

section \<open>The token normalizer\<close>

text \<open>
  \<^verbatim>\<open>normalize_show_name\<close> (NameChangerMP4.py, lines 24 to 40): strip, return the empty
  string when nothing is left, then three substitutions and a final \<^verbatim>\<open>strip('.')\<close>.
\<close>

definition normalize_show_name :: "string \<Rightarrow> string" where
  "normalize_show_name raw0 =
     (let raw = strip is_space raw0 in
      if raw = [] then []
      else
        let name = re_sub_runs (\<lambda>c. is_space c \<or> c = CHR ''_'') ''.'' raw;
            name = re_sub_runs (\<lambda>c. \<not> is_word c \<and> c \<noteq> CHR ''.'') ''.'' name;
            name = re_sub_runs (\<lambda>c. c = CHR ''.'') ''.'' name
        in strip (\<lambda>c. c = CHR ''.'') name)"


text \<open>Two dots next to each other somewhere in the string.\<close>

fun consecutive_dots :: "string \<Rightarrow> bool" where
  "consecutive_dots (c # d # cs) = ((c = CHR ''.'' \<and> d = CHR ''.'') \<or> consecutive_dots (d # cs))"
| "consecutive_dots _ = False"

lemma dropWhile_id: "s = [] \<or> \<not> P (hd s) \<Longrightarrow> dropWhile P s = s"
  by (cases s) auto

lemma strip_id:
  assumes "s = [] \<or> (\<not> P (hd s) \<and> \<not> P (last s))"
  shows "strip P s = s"
proof (cases "s = []")
  case True
  then show ?thesis by (simp add: strip_def)
next
  case False
  with assms have h: "\<not> P (hd s)" and l: "\<not> P (last s)" by auto
  from h False have "dropWhile P s = s" by (simp add: dropWhile_id)
  moreover from l False have "dropWhile P (rev s) = rev s"
    by (simp add: dropWhile_id hd_rev)
  ultimately show ?thesis by (simp add: strip_def)
qed

lemma set_strip: "set (strip P s) \<subseteq> set s"
proof -
  have "set (strip P s) = set (dropWhile P (rev (dropWhile P s)))"
    by (simp add: strip_def)
  also have "\<dots> \<subseteq> set (rev (dropWhile P s))"
    by (meson set_dropWhileD subsetI)
  also have "\<dots> \<subseteq> set s"
    using set_dropWhileD by fastforce
  finally show ?thesis .
qed

lemma strip_hd: "strip P s \<noteq> [] \<Longrightarrow> \<not> P (hd (strip P s))"
proof -
  assume ne: "strip P s \<noteq> []"
  let ?d = "dropWhile P s"
  have "strip P s = rev (dropWhile P (rev ?d))" by (simp add: strip_def)
  then obtain k where k: "strip P s = take k ?d"
    by (metis dropWhile_eq_drop rev_drop rev_rev_ident)
  with ne have "?d \<noteq> []" by auto
  then have "\<not> P (hd ?d)" by (simp add: hd_dropWhile)
  moreover from k ne have "hd (strip P s) = hd ?d"
    by (metis hd_take take_eq_Nil gr0I)
  ultimately show ?thesis by simp
qed

lemma strip_last: "strip P s \<noteq> [] \<Longrightarrow> \<not> P (last (strip P s))"
proof -
  assume ne: "strip P s \<noteq> []"
  let ?e = "dropWhile P (rev (dropWhile P s))"
  have e: "strip P s = rev ?e" by (simp add: strip_def)
  with ne have "?e \<noteq> []" by simp
  then have "\<not> P (hd ?e)" by (simp add: hd_dropWhile)
  with e \<open>?e \<noteq> []\<close> show ?thesis by (simp add: last_rev)
qed

lemma set_re_sub_runs:
  "c \<in> set (re_sub_runs P repl s) \<Longrightarrow> c \<in> set repl \<or> (c \<in> set s \<and> \<not> P c)"
proof (induction P repl s rule: re_sub_runs.induct)
  case (1 P repl)
  then show ?case by simp
next
  case (2 P repl d cs)
  then show ?case
    by (auto split: if_splits dest: set_dropWhileD)
qed

lemma re_sub_runs_id: "\<forall>c\<in>set s. \<not> P c \<Longrightarrow> re_sub_runs P repl s = s"
  by (induction s) auto


lemma consecutive_dots_Cons:
  "consecutive_dots (c # t) = ((c = CHR ''.'' \<and> t \<noteq> [] \<and> hd t = CHR ''.'') \<or> consecutive_dots t)"
  by (cases t) auto

lemma consecutive_dots_iff:
  "consecutive_dots s \<longleftrightarrow> (\<exists>i. Suc i < length s \<and> s ! i = CHR ''.'' \<and> s ! Suc i = CHR ''.'')"
proof (induction s)
  case Nil
  then show ?case by simp
next
  case (Cons c t)
  show ?case
  proof
    assume "consecutive_dots (c # t)"
    then consider "c = CHR ''.''" "t \<noteq> []" "hd t = CHR ''.''" | "consecutive_dots t"
      by (auto simp: consecutive_dots_Cons)
    then show "\<exists>i. Suc i < length (c # t) \<and> (c # t) ! i = CHR ''.'' \<and> (c # t) ! Suc i = CHR ''.''"
    proof cases
      case 1
      then have "Suc 0 < length (c # t) \<and> (c # t) ! 0 = CHR ''.'' \<and> (c # t) ! Suc 0 = CHR ''.''"
        by (cases t) auto
      then show ?thesis by blast
    next
      case 2
      with Cons obtain i where "Suc i < length t" "t ! i = CHR ''.''" "t ! Suc i = CHR ''.''"
        by auto
      then have "Suc (Suc i) < length (c # t) \<and> (c # t) ! Suc i = CHR ''.''
                 \<and> (c # t) ! Suc (Suc i) = CHR ''.''"
        by simp
      then show ?thesis by blast
    qed
  next
    assume "\<exists>i. Suc i < length (c # t) \<and> (c # t) ! i = CHR ''.'' \<and> (c # t) ! Suc i = CHR ''.''"
    then obtain i where i: "Suc i < length (c # t)" "(c # t) ! i = CHR ''.''"
      "(c # t) ! Suc i = CHR ''.''" by blast
    show "consecutive_dots (c # t)"
    proof (cases i)
      case 0
      with i show ?thesis by (cases t) (auto simp: consecutive_dots_Cons)
    next
      case (Suc j)
      with i have "Suc j < length t \<and> t ! j = CHR ''.'' \<and> t ! Suc j = CHR ''.''" by simp
      with Cons have "consecutive_dots t" by blast
      then show ?thesis by (simp add: consecutive_dots_Cons)
    qed
  qed
qed

lemma consecutive_dots_drop: "consecutive_dots (drop n s) \<Longrightarrow> consecutive_dots s"
proof -
  assume "consecutive_dots (drop n s)"
  then obtain i where i: "Suc i < length (drop n s)" "drop n s ! i = CHR ''.''"
    "drop n s ! Suc i = CHR ''.''"
    by (auto simp: consecutive_dots_iff)
  then have "Suc (n + i) < length s \<and> s ! (n + i) = CHR ''.'' \<and> s ! Suc (n + i) = CHR ''.''"
    by auto
  then show ?thesis unfolding consecutive_dots_iff by blast
qed

lemma consecutive_dots_take: "consecutive_dots (take n s) \<Longrightarrow> consecutive_dots s"
proof -
  assume "consecutive_dots (take n s)"
  then obtain i where i: "Suc i < length (take n s)" "take n s ! i = CHR ''.''"
    "take n s ! Suc i = CHR ''.''"
    by (auto simp: consecutive_dots_iff)
  then have "Suc i < length s \<and> s ! i = CHR ''.'' \<and> s ! Suc i = CHR ''.''"
    by auto
  then show ?thesis unfolding consecutive_dots_iff by blast
qed

lemma strip_take_drop: "\<exists>k n. strip P s = take k (drop n s)"
proof -
  have "strip P s = rev (dropWhile P (rev (dropWhile P s)))" by (simp add: strip_def)
  then obtain k where "strip P s = take k (dropWhile P s)"
    by (metis dropWhile_eq_drop rev_drop rev_rev_ident)
  then show ?thesis by (metis dropWhile_eq_drop)
qed

lemma consecutive_dots_strip: "consecutive_dots (strip P s) \<Longrightarrow> consecutive_dots s"
  using strip_take_drop [of P s] consecutive_dots_take consecutive_dots_drop by metis

lemma re_sub_runs_hd:
  "s \<noteq> [] \<Longrightarrow> \<not> P (hd s) \<Longrightarrow> re_sub_runs P repl s \<noteq> [] \<and> hd (re_sub_runs P repl s) = hd s"
  by (cases s) auto

lemma re_sub_dots_no_consecutive:
  "\<not> consecutive_dots (re_sub_runs (\<lambda>c. c = CHR ''.'') ''.'' s)"
proof (induction "length s" arbitrary: s rule: less_induct)
  case less
  show ?case
  proof (cases s)
    case Nil
    then show ?thesis by simp
  next
    case (Cons c cs)
    show ?thesis
    proof (cases "c = CHR ''.''")
      case True
      define d where "d = dropWhile (\<lambda>c. c = CHR ''.'') cs"
      define r where "r = re_sub_runs (\<lambda>c. c = CHR ''.'') ''.'' d"
      have "length d < length s"
        unfolding d_def Cons using length_dropWhile_le [of "\<lambda>c. c = CHR ''.''" cs] by simp
      then have ih: "\<not> consecutive_dots r" unfolding r_def by (rule less)
      have hd_r: "r = [] \<or> hd r \<noteq> CHR ''.''"
      proof (cases "d = []")
        case True
        then show ?thesis by (simp add: r_def)
      next
        case False
        then have "\<not> (\<lambda>c. c = CHR ''.'') (hd d)" unfolding d_def by (rule hd_dropWhile)
        then have "hd d \<noteq> CHR ''.''" by simp
        with False show ?thesis
          using re_sub_runs_hd [of d "\<lambda>c. c = CHR ''.''" "''.''"] by (simp add: r_def)
      qed
      have eq: "re_sub_runs (\<lambda>c. c = CHR ''.'') ''.'' s = CHR ''.'' # r"
        unfolding Cons r_def d_def using True by simp
      from ih hd_r have "\<not> consecutive_dots (CHR ''.'' # r)"
        by (auto simp: consecutive_dots_Cons)
      then show ?thesis unfolding eq .
    next
      case False
      have "length cs < length s" using Cons by simp
      then have "\<not> consecutive_dots (re_sub_runs (\<lambda>c. c = CHR ''.'') ''.'' cs)"
        by (rule less)
      with False show ?thesis unfolding Cons by (simp add: consecutive_dots_Cons)
    qed
  qed
qed

lemma re_sub_dots_id:
  "\<not> consecutive_dots s \<Longrightarrow> re_sub_runs (\<lambda>c. c = CHR ''.'') ''.'' s = s"
proof (induction s)
  case Nil
  then show ?case by simp
next
  case (Cons c t)
  then have t: "re_sub_runs (\<lambda>c. c = CHR ''.'') ''.'' t = t"
    by (simp add: consecutive_dots_Cons)
  show ?case
  proof (cases "c = CHR ''.''")
    case True
    with Cons.prems have "t = [] \<or> hd t \<noteq> CHR ''.''"
      by (auto simp: consecutive_dots_Cons)
    then have "dropWhile (\<lambda>c. c = CHR ''.'') t = t" by (simp add: dropWhile_id)
    with True t show ?thesis by simp
  next
    case False
    with t show ?thesis by simp
  qed
qed


text \<open>
  The shape of a normalized name: dots and word characters other than the underscore,
  no two dots in a row, no dot at either end.
\<close>

definition canonical_name :: "string \<Rightarrow> bool" where
  "canonical_name s =
     (list_all (\<lambda>c. c = CHR ''.'' \<or> (is_word c \<and> c \<noteq> CHR ''_'')) s
      \<and> \<not> consecutive_dots s
      \<and> (s = [] \<or> (hd s \<noteq> CHR ''.'' \<and> last s \<noteq> CHR ''.'')))"

lemma word_not_space: "is_word c \<Longrightarrow> \<not> is_space c"
  by (auto simp: is_word_def is_space_def latin1_alnum_def)

lemma dot_not_space: "\<not> is_space (CHR ''.'')"
  by (simp add: is_space_def)

lemma normalize_canonical: "canonical_name (normalize_show_name x)"
proof (cases "strip is_space x = []")
  case True
  then show ?thesis by (simp add: normalize_show_name_def canonical_name_def)
next
  case False
  define a where "a = re_sub_runs (\<lambda>c. is_space c \<or> c = CHR ''_'') ''.'' (strip is_space x)"
  define b where "b = re_sub_runs (\<lambda>c. \<not> is_word c \<and> c \<noteq> CHR ''.'') ''.'' a"
  define d where "d = re_sub_runs (\<lambda>c. c = CHR ''.'') ''.'' b"
  have out: "normalize_show_name x = strip (\<lambda>c. c = CHR ''.'') d"
    using False by (simp add: normalize_show_name_def a_def b_def d_def)
  have sa: "c = CHR ''.'' \<or> c \<noteq> CHR ''_''" if "c \<in> set a" for c
    using set_re_sub_runs [OF that [unfolded a_def]] by auto
  have sb: "c = CHR ''.'' \<or> (is_word c \<and> c \<noteq> CHR ''_'')" if "c \<in> set b" for c
    using set_re_sub_runs [OF that [unfolded b_def]] sa by auto
  have sd: "c = CHR ''.'' \<or> (is_word c \<and> c \<noteq> CHR ''_'')" if "c \<in> set d" for c
    using set_re_sub_runs [OF that [unfolded d_def]] sb by auto
  have "c = CHR ''.'' \<or> (is_word c \<and> c \<noteq> CHR ''_'')"
    if "c \<in> set (strip (\<lambda>c. c = CHR ''.'') d)" for c
    using that set_strip [of "\<lambda>c. c = CHR ''.''" d] sd by blast
  then have chars: "list_all (\<lambda>c. c = CHR ''.'' \<or> (is_word c \<and> c \<noteq> CHR ''_''))
      (strip (\<lambda>c. c = CHR ''.'') d)"
    unfolding list_all_iff by blast
  have "\<not> consecutive_dots d"
    unfolding d_def by (rule re_sub_dots_no_consecutive)
  then have nodd: "\<not> consecutive_dots (strip (\<lambda>c. c = CHR ''.'') d)"
    using consecutive_dots_strip by blast
  have ends: "strip (\<lambda>c. c = CHR ''.'') d = []
      \<or> (hd (strip (\<lambda>c. c = CHR ''.'') d) \<noteq> CHR ''.''
         \<and> last (strip (\<lambda>c. c = CHR ''.'') d) \<noteq> CHR ''.'')"
    using strip_hd [of "\<lambda>c. c = CHR ''.''" d] strip_last [of "\<lambda>c. c = CHR ''.''" d]
    by blast
  from chars nodd ends show ?thesis
    unfolding out canonical_name_def by blast
qed

lemma canonical_fixed:
  assumes "canonical_name s"
  shows "normalize_show_name s = s"
proof (cases "s = []")
  case True
  then show ?thesis by (simp add: normalize_show_name_def strip_def)
next
  case False
  from assms have chars: "\<And>c. c \<in> set s \<Longrightarrow> c = CHR ''.'' \<or> (is_word c \<and> c \<noteq> CHR ''_'')"
    and nodd: "\<not> consecutive_dots s"
    and ends: "hd s \<noteq> CHR ''.''" "last s \<noteq> CHR ''.''"
    using False by (auto simp: canonical_name_def list_all_iff)
  have nsp: "\<not> is_space c" if "c \<in> set s" for c
    using chars [OF that] word_not_space dot_not_space by blast
  from False have "hd s \<in> set s" "last s \<in> set s" by simp_all
  then have "\<not> is_space (hd s)" "\<not> is_space (last s)" using nsp by blast+
  then have 1: "strip is_space s = s" by (simp add: strip_id)
  have 2: "re_sub_runs (\<lambda>c. is_space c \<or> c = CHR ''_'') ''.'' s = s"
  proof (rule re_sub_runs_id, rule ballI)
    fix c assume "c \<in> set s"
    with chars nsp show "\<not> (is_space c \<or> c = CHR ''_'')" by blast
  qed
  have 3: "re_sub_runs (\<lambda>c. \<not> is_word c \<and> c \<noteq> CHR ''.'') ''.'' s = s"
  proof (rule re_sub_runs_id, rule ballI)
    fix c assume "c \<in> set s"
    with chars show "\<not> (\<not> is_word c \<and> c \<noteq> CHR ''.'')" by blast
  qed
  have 4: "re_sub_runs (\<lambda>c. c = CHR ''.'') ''.'' s = s"
    using nodd by (rule re_sub_dots_id)
  have 5: "strip (\<lambda>c. c = CHR ''.'') s = s"
    using ends by (simp add: strip_id)
  show ?thesis
    using False by (simp add: normalize_show_name_def 1 2 3 4 5)
qed

lemma strip_all_space: "list_all P s \<Longrightarrow> strip P s = []"
proof -
  assume "list_all P s"
  then have d: "dropWhile P s = []" by (simp add: list_all_iff)
  show ?thesis unfolding strip_def d by simp
qed

section \<open>Properties of the normalizer\<close>

text \<open>
  Claim C4. For every input string \<open>x\<close>, normalizing the normalized string gives the
  normalized string again: \<^verbatim>\<open>normalize_show_name\<close> is idempotent.
\<close>

theorem normalize_idempotent:
  "normalize_show_name (normalize_show_name x) = normalize_show_name x"
  by (rule canonical_fixed) (rule normalize_canonical)

text \<open>
  Claim C5. For every input string, the output of \<^verbatim>\<open>normalize_show_name\<close> contains no
  whitespace character and no underscore, no two consecutive dots, and neither starts
  nor ends with a dot; an input made of whitespace only (the empty string included)
  yields the empty string.
\<close>

theorem normalize_output_shape:
  "list_all (\<lambda>c. \<not> is_space c \<and> c \<noteq> CHR ''_'') (normalize_show_name x)
   \<and> \<not> consecutive_dots (normalize_show_name x)
   \<and> (\<forall>t. normalize_show_name x \<noteq> CHR ''.'' # t \<and> normalize_show_name x \<noteq> t @ ''.'')
   \<and> (list_all is_space x \<longrightarrow> normalize_show_name x = [])"
proof -
  have c: "canonical_name (normalize_show_name x)" by (rule normalize_canonical)
  then have 1: "list_all (\<lambda>c. \<not> is_space c \<and> c \<noteq> CHR ''_'') (normalize_show_name x)"
    unfolding canonical_name_def list_all_iff using word_not_space dot_not_space by fastforce
  from c have 2: "\<not> consecutive_dots (normalize_show_name x)"
    by (simp add: canonical_name_def)
  from c have 3: "normalize_show_name x \<noteq> CHR ''.'' # t" for t
    by (auto simp: canonical_name_def)
  from c have 4: "normalize_show_name x \<noteq> t @ ''.''" for t
    by (auto simp: canonical_name_def)
  have 5: "list_all is_space x \<longrightarrow> normalize_show_name x = []"
    by (simp add: normalize_show_name_def strip_all_space)
  from 1 2 3 4 5 show ?thesis by blast
qed

theorem normalize_output_shape_witness:
  "list_all is_space [CHR 0xA0, CHR 0x09, CHR 0x85, CHR '' '']
   \<and> normalize_show_name [CHR 0xA0, CHR 0x09, CHR 0x85, CHR '' ''] = []
   \<and> normalize_show_name ('' Pok'' @ [CHR 0xE9] @ ''mon_The-Movie'' @ [CHR 0xA0])
       = ''Pok'' @ [CHR 0xE9] @ ''mon.The.Movie''
   \<and> list_all (\<lambda>c. \<not> is_space c \<and> c \<noteq> CHR ''_'')
         (normalize_show_name ('' Pok'' @ [CHR 0xE9] @ ''mon_The-Movie'' @ [CHR 0xA0]))"
proof -
  have a: "list_all is_space [CHR 0xA0, CHR 0x09, CHR 0x85, CHR '' '']" by code_simp
  from normalize_output_shape [of "[CHR 0xA0, CHR 0x09, CHR 0x85, CHR '' '']"] a
  have b: "normalize_show_name [CHR 0xA0, CHR 0x09, CHR 0x85, CHR '' ''] = []" by blast
  have c: "normalize_show_name ('' Pok'' @ [CHR 0xE9] @ ''mon_The-Movie'' @ [CHR 0xA0])
       = ''Pok'' @ [CHR 0xE9] @ ''mon.The.Movie''" by code_simp
  from normalize_output_shape [of "'' Pok'' @ [CHR 0xE9] @ ''mon_The-Movie'' @ [CHR 0xA0]"]
  have d: "list_all (\<lambda>c. \<not> is_space c \<and> c \<noteq> CHR ''_'')
         (normalize_show_name ('' Pok'' @ [CHR 0xE9] @ ''mon_The-Movie'' @ [CHR 0xA0]))"
    by blast
  from a b c d show ?thesis by (intro conjI)
qed

section \<open>Paths, numbers and formatting\<close>

text \<open>
  The functions of \<^verbatim>\<open>os.path\<close> are those of \<^verbatim>\<open>posixpath\<close>, with \<open>/\<close> as the only
  separator. \<^verbatim>\<open>basename\<close> is what follows the last separator.
\<close>

definition basename :: "string \<Rightarrow> string" where
  "basename p = rev (takeWhile (\<lambda>c. c \<noteq> CHR ''/'') (rev p))"

text \<open>
  \<^verbatim>\<open>dirname\<close>: the part up to the last separator, with its trailing separators
  removed unless it consists of separators only.
\<close>

definition dirname :: "string \<Rightarrow> string" where
  "dirname p =
     (let head = rev (dropWhile (\<lambda>c. c \<noteq> CHR ''/'') (rev p)) in
      if head \<noteq> [] \<and> \<not> list_all (\<lambda>c. c = CHR ''/'') head
      then rev (dropWhile (\<lambda>c. c = CHR ''/'') (rev head))
      else head)"

text \<open>
  \<^verbatim>\<open>splitext\<close> splits at the last dot, when that dot comes after the last separator
  and some character of the file name before it is not a dot; otherwise the extension
  is empty.
\<close>

definition splitext :: "string \<Rightarrow> string \<times> string" where
  "splitext p =
     (let ext_rev = takeWhile (\<lambda>c. c \<noteq> CHR ''.'') (rev p);
          root_rev = dropWhile (\<lambda>c. c \<noteq> CHR ''.'') (rev p)
      in if root_rev \<noteq> [] \<and> CHR ''/'' \<notin> set ext_rev
            \<and> \<not> list_all (\<lambda>c. c = CHR ''.'') (takeWhile (\<lambda>c. c \<noteq> CHR ''/'') (tl root_rev))
         then (rev (tl root_rev), CHR ''.'' # rev ext_rev)
         else (p, []))"

text \<open>\<^verbatim>\<open>os.path.join(a, b)\<close> for two arguments.\<close>

definition join :: "string \<Rightarrow> string \<Rightarrow> string" where
  "join a b =
     (if b \<noteq> [] \<and> hd b = CHR ''/'' then b
      else if a = [] \<or> last a = CHR ''/'' then a @ b
      else a @ ''/'' @ b)"

text \<open>
  \<^verbatim>\<open>str.lower()\<close>: the letters A to Z and the capital letters 0xC0 to 0xDE (without the
  sign 0xD7) go to the letter 0x20 above; every other character is kept.
\<close>

definition lower_char :: "char \<Rightarrow> char" where
  "lower_char c =
     (case map_of (zip (''ABCDEFGHIJKLMNOPQRSTUVWXYZ''
                        @ [CHR 0xC0, CHR 0xC1, CHR 0xC2, CHR 0xC3, CHR 0xC4, CHR 0xC5,
                           CHR 0xC6, CHR 0xC7, CHR 0xC8, CHR 0xC9, CHR 0xCA, CHR 0xCB,
                           CHR 0xCC, CHR 0xCD, CHR 0xCE, CHR 0xCF, CHR 0xD0, CHR 0xD1,
                           CHR 0xD2, CHR 0xD3, CHR 0xD4, CHR 0xD5, CHR 0xD6,
                           CHR 0xD8, CHR 0xD9, CHR 0xDA, CHR 0xDB, CHR 0xDC, CHR 0xDD,
                           CHR 0xDE])
                       (''abcdefghijklmnopqrstuvwxyz''
                        @ [CHR 0xE0, CHR 0xE1, CHR 0xE2, CHR 0xE3, CHR 0xE4, CHR 0xE5,
                           CHR 0xE6, CHR 0xE7, CHR 0xE8, CHR 0xE9, CHR 0xEA, CHR 0xEB,
                           CHR 0xEC, CHR 0xED, CHR 0xEE, CHR 0xEF, CHR 0xF0, CHR 0xF1,
                           CHR 0xF2, CHR 0xF3, CHR 0xF4, CHR 0xF5, CHR 0xF6,
                           CHR 0xF8, CHR 0xF9, CHR 0xFA, CHR 0xFB, CHR 0xFC, CHR 0xFD,
                           CHR 0xFE])) c of
        Some d \<Rightarrow> d | None \<Rightarrow> c)"

definition lower :: "string \<Rightarrow> string" where
  "lower s = map lower_char s"

text \<open>
  \<^verbatim>\<open>int(s)\<close> is only ever applied to a group captured by \<^verbatim>\<open>\d\<close>, \<^verbatim>\<open>\d+\<close> or
  \<^verbatim>\<open>\d{1,2}\<close>. \<open>py_int\<close> gives the decimal value of a non-empty digit string and
  \<open>None\<close> (Python's \<^verbatim>\<open>ValueError\<close>) on any other string, so that each
  \<^verbatim>\<open>except ValueError: pass\<close> of the source is a branch of the model. The limit
  that recent Python versions put on the length of a digit string (4300 digits) is
  beyond the length of a file name and is left out.
\<close>

definition digit_val :: "char \<Rightarrow> nat" where
  "digit_val c = length (takeWhile (\<lambda>d. d \<noteq> c) ''0123456789'')"

definition digit_char :: "nat \<Rightarrow> char" where
  "digit_char n = ''0123456789'' ! n"

definition digits_value :: "string \<Rightarrow> nat" where
  "digits_value s = foldl (\<lambda>a c. 10 * a + digit_val c) 0 s"

definition py_int :: "string \<Rightarrow> int option" where
  "py_int s =
     (if s \<noteq> [] \<and> list_all is_digit s then Some (int (digits_value s)) else None)"

text \<open>\<^verbatim>\<open>str(n)\<close> for a natural number, and the format \<^verbatim>\<open>{n:02d}\<close>.\<close>

fun py_str :: "nat \<Rightarrow> string" where
  "py_str n = (if n < 10 then [digit_char n] else py_str (n div 10) @ [digit_char (n mod 10)])"

definition fmt02d :: "int \<Rightarrow> string" where
  "fmt02d n =
     (if n < 0 then CHR ''-'' # py_str (nat (- n))
      else if n < 10 then CHR ''0'' # py_str (nat n)
      else py_str (nat n))"


section \<open>The patterns of the extraction cascade\<close>

text \<open>
  Each regular expression of the source is a function that matches it at the start of
  a string and returns the captured groups; \<^verbatim>\<open>re.search\<close> tries the positions from
  left to right and returns the first match. The matchers take the greedy choice at
  every quantifier. That is all of Python's backtracking here: where \<^verbatim>\<open>\d{1,2}\<close>
  could give back its second digit, the next character is that digit, on which the
  class, the letter or the \<^verbatim>\<open>\b\<close> that follows in the pattern fails again; an optional
  \<^verbatim>\<open>[pP]\<close> or separator that is given back is met by a pattern element that does not
  accept it; and a starred class is followed by a class disjoint from it.
\<close>

text \<open>The class \<^verbatim>\<open>[ ._-]\<close>.\<close>

definition is_sep :: "char \<Rightarrow> bool" where
  "is_sep c = (c \<in> set '' ._-'')"

text \<open>\<^verbatim>\<open>(\d{1,2})\<close> at the start of \<open>s\<close>: the group and the rest of the string.\<close>

definition digits12 :: "string \<Rightarrow> (string \<times> string) option" where
  "digits12 s =
     (let g = take 2 (takeWhile is_digit s) in
      if g = [] then None else Some (g, drop (length g) s))"

text \<open>
  \<^verbatim>\<open>\b\<close> next to a digit (a word character): after the digit it holds at the end of the
  string and before a non-word character, before the digit it holds at the start of the
  string and after a non-word character.
\<close>

definition followed_by_boundary :: "string \<Rightarrow> bool" where
  "followed_by_boundary rest = (case rest of [] \<Rightarrow> True | c # _ \<Rightarrow> \<not> is_word c)"

definition preceded_by_boundary :: "char option \<Rightarrow> bool" where
  "preceded_by_boundary prev = (case prev of None \<Rightarrow> True | Some c \<Rightarrow> \<not> is_word c)"

text \<open>
  \<^verbatim>\<open>re.search\<close>: the first position, from the left, where the pattern matches.
  \<open>re_search_from\<close> also hands the matcher the character before the position, for
  a pattern that starts with \<^verbatim>\<open>\b\<close>.
\<close>

fun re_search :: "(string \<Rightarrow> 'a option) \<Rightarrow> string \<Rightarrow> 'a option" where
  "re_search m [] = m []"
| "re_search m (c # cs) = (case m (c # cs) of Some r \<Rightarrow> Some r | None \<Rightarrow> re_search m cs)"

fun re_search_from :: "(char option \<Rightarrow> string \<Rightarrow> 'a option) \<Rightarrow> char option \<Rightarrow> string \<Rightarrow> 'a option" where
  "re_search_from m prev [] = m prev []"
| "re_search_from m prev (c # cs) =
     (case m prev (c # cs) of Some r \<Rightarrow> Some r | None \<Rightarrow> re_search_from m (Some c) cs)"

text \<open>Pattern 1, \<^verbatim>\<open>[sS](\d{1,2})[ ._-]*[eE](\d{1,2})\<close>: groups 1 and 2.\<close>

definition sxxeyy_at :: "string \<Rightarrow> (string \<times> string) option" where
  "sxxeyy_at s =
     (case s of
        [] \<Rightarrow> None
      | c # r \<Rightarrow>
          if c \<in> set ''sS'' then
            (case digits12 r of
               None \<Rightarrow> None
             | Some (g1, r1) \<Rightarrow>
                 (case dropWhile is_sep r1 of
                    [] \<Rightarrow> None
                  | e # r2 \<Rightarrow>
                      if e \<in> set ''eE'' then
                        (case digits12 r2 of
                           None \<Rightarrow> None
                         | Some (g2, r3) \<Rightarrow> Some (g1, g2))
                      else None))
          else None)"

text \<open>Pattern 2, \<^verbatim>\<open>\b(\d{1,2})[xX](\d{1,2})\b\<close>: groups 1 and 2.\<close>

definition nxn_at :: "char option \<Rightarrow> string \<Rightarrow> (string \<times> string) option" where
  "nxn_at prev s =
     (if preceded_by_boundary prev then
        (case digits12 s of
           None \<Rightarrow> None
         | Some (g1, r1) \<Rightarrow>
             (case r1 of
                [] \<Rightarrow> None
              | x # r2 \<Rightarrow>
                  if x \<in> set ''xX'' then
                    (case digits12 r2 of
                       None \<Rightarrow> None
                     | Some (g2, r3) \<Rightarrow>
                         if followed_by_boundary r3 then Some (g1, g2) else None)
                  else None))
      else None)"

text \<open>
  Pattern 3, \<^verbatim>\<open>[eE][pP]?[ ._-]?(\d{1,2})\b\<close>: group 1 and what follows the match.
\<close>

definition ep_at :: "string \<Rightarrow> (string \<times> string) option" where
  "ep_at s =
     (case s of
        [] \<Rightarrow> None
      | c # r \<Rightarrow>
          if c \<in> set ''eE'' then
            (let r1 = (case r of p # t \<Rightarrow> if p \<in> set ''pP'' then t else r | [] \<Rightarrow> r);
                 r2 = (case r1 of q # t \<Rightarrow> if is_sep q then t else r1 | [] \<Rightarrow> r1)
             in case digits12 r2 of
                  None \<Rightarrow> None
                | Some (g, r3) \<Rightarrow> if followed_by_boundary r3 then Some (g, r3) else None)
          else None)"

text \<open>Pattern 4, \<^verbatim>\<open>re.match(r'\s*(\d+)', base)\<close>: group 1.\<close>

definition leading_digits :: "string \<Rightarrow> string option" where
  "leading_digits s =
     (let g = takeWhile is_digit (dropWhile is_space s) in
      if g = [] then None else Some g)"

text \<open>Pattern 5, \<^verbatim>\<open>re.findall(r'(\d{1,2})', base)\<close>: every match, from left to right.\<close>

function findall_d12 :: "string \<Rightarrow> string list" where
  "findall_d12 [] = []"
| "findall_d12 (c # cs) =
     (case digits12 (c # cs) of
        None \<Rightarrow> findall_d12 cs
      | Some (g, rest) \<Rightarrow> g # findall_d12 (drop (length g) (c # cs)))"
  by pat_completeness auto
termination
  by (relation "measure length") (auto simp: digits12_def Let_def split: if_splits)

text \<open>
  The season patterns \<^verbatim>\<open>[sS]eason[^\d]*(\d+)\<close> and \<^verbatim>\<open>[sS](\d{1,2})\<close>, and
  \<^verbatim>\<open>re.findall(r'(\d+)', name)\<close>.
\<close>

definition season_at :: "string \<Rightarrow> string option" where
  "season_at s =
     (case s of
        [] \<Rightarrow> None
      | c # r \<Rightarrow>
          if c \<in> set ''sS'' \<and> take 5 r = ''eason'' then
            (let g = takeWhile is_digit (dropWhile (\<lambda>c. \<not> is_digit c) (drop 5 r)) in
             if g = [] then None else Some g)
          else None)"

definition s_at :: "string \<Rightarrow> string option" where
  "s_at s =
     (case s of
        [] \<Rightarrow> None
      | c # r \<Rightarrow> if c \<in> set ''sS'' then map_option fst (digits12 r) else None)"

function findall_digits :: "string \<Rightarrow> string list" where
  "findall_digits [] = []"
| "findall_digits (c # cs) =
     (if is_digit c then (c # takeWhile is_digit cs) # findall_digits (dropWhile is_digit cs)
      else findall_digits cs)"
  by pat_completeness auto
termination
  by (relation "measure length") (auto simp: length_dropWhile_le less_Suc_eq_le)

section \<open>Season and episode extraction\<close>

text \<open>\<^verbatim>\<open>extract_season_number_from_folder\<close> (lines 71 to 105).\<close>

definition extract_season_number_from_folder :: "string \<Rightarrow> int" where
  "extract_season_number_from_folder folder_path =
     (let name = basename folder_path in
      case Option.bind (re_search season_at name) py_int of
        Some n \<Rightarrow> max 1 n
      | None \<Rightarrow>
          (case Option.bind (re_search s_at name) py_int of
             Some n \<Rightarrow> max 1 n
           | None \<Rightarrow>
               (case findall_digits name of
                  [] \<Rightarrow> 1
                | g # gs \<Rightarrow>
                    (case py_int (last (g # gs)) of
                       Some n \<Rightarrow> max 1 n
                     | None \<Rightarrow> 1))))"

text \<open>
  \<^verbatim>\<open>extract_episode_number\<close> (lines 108 to 161): the five rules in order, each one
  falling through to the next when its pattern does not match.
\<close>

definition episode_rule1 :: "string \<Rightarrow> int option" where
  "episode_rule1 base = Option.bind (re_search sxxeyy_at base) (\<lambda>(g1, g2). py_int g2)"

definition episode_rule2 :: "string \<Rightarrow> int option" where
  "episode_rule2 base = Option.bind (re_search_from nxn_at None base) (\<lambda>(g1, g2). py_int g2)"

definition episode_rule3 :: "string \<Rightarrow> int option" where
  "episode_rule3 base = Option.bind (re_search ep_at base) (\<lambda>(g, rest). py_int g)"

definition episode_rule4 :: "string \<Rightarrow> int option" where
  "episode_rule4 base = Option.bind (leading_digits base) py_int"

definition episode_rule5 :: "string \<Rightarrow> int option" where
  "episode_rule5 base =
     (case findall_d12 base of [] \<Rightarrow> None | g # gs \<Rightarrow> py_int (last (g # gs)))"

definition extract_episode_number :: "string \<Rightarrow> int option" where
  "extract_episode_number filename =
     (let base = fst (splitext (basename filename)) in
      case episode_rule1 base of
        Some n \<Rightarrow> Some n
      | None \<Rightarrow>
          (case episode_rule2 base of
             Some n \<Rightarrow> Some n
           | None \<Rightarrow>
               (case episode_rule3 base of
                  Some n \<Rightarrow> Some n
                | None \<Rightarrow>
                    (case episode_rule4 base of
                       Some n \<Rightarrow> Some n
                     | None \<Rightarrow> episode_rule5 base))))"

text \<open>\<^verbatim>\<open>guess_season_from_files\<close> (lines 164 to 176).\<close>

fun guess_season_from_files :: "string list \<Rightarrow> int option" where
  "guess_season_from_files [] = None"
| "guess_season_from_files (path # paths) =
     (let base = fst (splitext (basename path)) in
      case Option.bind (re_search sxxeyy_at base) (\<lambda>(g1, g2). py_int g1) of
        Some n \<Rightarrow> Some (max 1 n)
      | None \<Rightarrow> guess_season_from_files paths)"


section \<open>Facts about the patterns\<close>

lemma digits12_Some:
  assumes "digits12 s = Some (g, r)"
  shows "g \<noteq> []" and "list_all is_digit g" and "length g \<le> 2" and "s = g @ r"
proof -
  from assms have g: "g = take 2 (takeWhile is_digit s)" and r: "r = drop (length g) s"
    and ne: "g \<noteq> []"
    by (auto simp: digits12_def Let_def split: if_splits)
  show "g \<noteq> []" by (rule ne)
  have "set g \<subseteq> set (takeWhile is_digit s)" unfolding g by (rule set_take_subset)
  then show "list_all is_digit g"
    unfolding list_all_iff using set_takeWhileD by fastforce
  show "length g \<le> 2" unfolding g by simp
  have "g = take (length g) s"
    unfolding g by (metis append_eq_conv_conj takeWhile_dropWhile_id take_add take_all_iff
        length_take min.cobounded1 take_take min.commute)
  then show "s = g @ r" unfolding r by (metis append_take_drop_id)
qed

lemma digits12_None: "\<not> list_ex is_digit s \<Longrightarrow> digits12 s = None"
  by (cases s) (auto simp: digits12_def)

lemma digits12_hd: "s \<noteq> [] \<Longrightarrow> is_digit (hd s) \<Longrightarrow> digits12 s \<noteq> None"
  by (cases s) (auto simp: digits12_def)

lemma py_int_digits:
  "g \<noteq> [] \<Longrightarrow> list_all is_digit g \<Longrightarrow> py_int g = Some (int (digits_value g))"
  by (simp add: py_int_def)

lemma re_search_Some: "re_search m s = Some r \<Longrightarrow> \<exists>t. m t = Some r"
  by (induction s) (auto split: option.splits)

lemma re_search_from_Some: "re_search_from m prev s = Some r \<Longrightarrow> \<exists>p t. m p t = Some r"
  by (induction s arbitrary: prev) (auto split: option.splits)

lemma re_search_None:
  "(\<And>t. set t \<subseteq> set s \<Longrightarrow> m t = None) \<Longrightarrow> re_search m s = None"
proof (induction s)
  case Nil
  then show ?case by simp
next
  case (Cons c cs)
  have "m (c # cs) = None" by (rule Cons.prems) simp
  moreover have "re_search m cs = None"
  proof (rule Cons.IH)
    fix t assume "set t \<subseteq> set cs"
    then have "set t \<subseteq> set (c # cs)" by auto
    then show "m t = None" by (rule Cons.prems)
  qed
  ultimately show ?case by simp
qed

lemma re_search_from_None:
  "(\<And>p t. set t \<subseteq> set s \<Longrightarrow> m p t = None) \<Longrightarrow> re_search_from m prev s = None"
proof (induction s arbitrary: prev)
  case Nil
  then show ?case by simp
next
  case (Cons c cs)
  have "m prev (c # cs) = None" by (rule Cons.prems) simp
  moreover have "re_search_from m (Some c) cs = None"
  proof (rule Cons.IH)
    fix p t assume "set t \<subseteq> set cs"
    then have "set t \<subseteq> set (c # cs)" by auto
    then show "m p t = None" by (rule Cons.prems)
  qed
  ultimately show ?case by simp
qed



lemma no_digit_subset: "\<not> list_ex is_digit s \<Longrightarrow> set t \<subseteq> set s \<Longrightarrow> \<not> list_ex is_digit t"
  by (auto simp: list_ex_iff)

lemma sxxeyy_at_None: "\<not> list_ex is_digit s \<Longrightarrow> sxxeyy_at s = None"
proof (cases s)
  case Nil
  then show ?thesis by (simp add: sxxeyy_at_def)
next
  case (Cons c r)
  assume "\<not> list_ex is_digit s"
  with Cons have "\<not> list_ex is_digit r" by simp
  then have "digits12 r = None" by (rule digits12_None)
  with Cons show ?thesis by (simp add: sxxeyy_at_def)
qed

lemma nxn_at_None: "\<not> list_ex is_digit s \<Longrightarrow> nxn_at prev s = None"
  by (simp add: nxn_at_def digits12_None)

lemma ep_at_None: "\<not> list_ex is_digit s \<Longrightarrow> ep_at s = None"
proof (cases s)
  case Nil
  then show ?thesis by (simp add: ep_at_def)
next
  case (Cons c r)
  assume nd: "\<not> list_ex is_digit s"
  define r1 where "r1 = (case r of p # t \<Rightarrow> if p \<in> set ''pP'' then t else r | [] \<Rightarrow> r)"
  define r2 where "r2 = (case r1 of q # t \<Rightarrow> if is_sep q then t else r1 | [] \<Rightarrow> r1)"
  have "set r1 \<subseteq> set r" unfolding r1_def by (auto split: list.splits)
  moreover have "set r2 \<subseteq> set r1" unfolding r2_def by (auto split: list.splits)
  ultimately have "set r2 \<subseteq> set s" using Cons by auto
  with nd have "\<not> list_ex is_digit r2" by (rule no_digit_subset)
  then have "digits12 r2 = None" by (rule digits12_None)
  then show ?thesis unfolding ep_at_def Cons r1_def r2_def by (simp add: Let_def)
qed

lemma takeWhile_no_digit: "\<not> list_ex is_digit t \<Longrightarrow> takeWhile is_digit t = []"
  by (cases t) auto

lemma leading_digits_None: "\<not> list_ex is_digit s \<Longrightarrow> leading_digits s = None"
proof -
  assume nd: "\<not> list_ex is_digit s"
  have "set (dropWhile is_space s) \<subseteq> set s" by (auto dest: set_dropWhileD)
  with nd have "\<not> list_ex is_digit (dropWhile is_space s)" by (rule no_digit_subset)
  then have "takeWhile is_digit (dropWhile is_space s) = []"
    by (rule takeWhile_no_digit)
  then show ?thesis by (simp add: leading_digits_def)
qed

lemma findall_d12_digits: "g \<in> set (findall_d12 s) \<Longrightarrow> g \<noteq> [] \<and> list_all is_digit g"
proof (induction s rule: findall_d12.induct)
  case 1
  then show ?case by simp
next
  case (2 c cs)
  show ?case
  proof (cases "digits12 (c # cs)")
    case None
    with 2 show ?thesis by simp
  next
    case (Some a)
    obtain g' rest where a: "a = (g', rest)" by (cases a)
    from 2(3) Some a have "g = g' \<or> g \<in> set (findall_d12 (drop (length g') (c # cs)))"
      by simp
    then show ?thesis
    proof
      assume "g = g'"
      with Some a show ?thesis using digits12_Some(1,2) by blast
    next
      assume "g \<in> set (findall_d12 (drop (length g') (c # cs)))"
      with 2(2) [OF Some a [symmetric]] show ?thesis
        by simp
    qed
  qed
qed

lemma findall_d12_None: "\<not> list_ex is_digit s \<Longrightarrow> findall_d12 s = []"
proof (induction s)
  case Nil
  then show ?case by simp
next
  case (Cons c cs)
  then have "digits12 (c # cs) = None" by (intro digits12_None)
  moreover from Cons have "findall_d12 cs = []" by simp
  ultimately show ?case by simp
qed

lemma findall_d12_Some: "list_ex is_digit s \<Longrightarrow> findall_d12 s \<noteq> []"
proof (induction s)
  case Nil
  then show ?case by simp
next
  case (Cons c cs)
  show ?case
  proof (cases "digits12 (c # cs)")
    case None
    then have "\<not> is_digit c" using digits12_hd [of "c # cs"] by auto
    with Cons have "findall_d12 cs \<noteq> []" by simp
    with None show ?thesis by simp
  next
    case (Some a)
    then show ?thesis by (simp split: prod.splits)
  qed
qed

lemma episode_rule5_Some: "list_ex is_digit base \<Longrightarrow> episode_rule5 base \<noteq> None"
proof -
  assume "list_ex is_digit base"
  then have "findall_d12 base \<noteq> []" by (rule findall_d12_Some)
  then obtain g gs where f: "findall_d12 base = g # gs" by (cases "findall_d12 base") auto
  have "last (g # gs) \<in> set (findall_d12 base)" unfolding f by (rule last_in_set) simp
  then have "last (g # gs) \<noteq> [] \<and> list_all is_digit (last (g # gs))"
    by (rule findall_d12_digits)
  then have "py_int (last (g # gs)) \<noteq> None" by (simp add: py_int_def)
  then show ?thesis by (simp add: episode_rule5_def f)
qed

lemma episode_rules_None:
  assumes "\<not> list_ex is_digit base"
  shows "episode_rule1 base = None" and "episode_rule2 base = None"
    and "episode_rule3 base = None" and "episode_rule4 base = None"
    and "episode_rule5 base = None"
proof -
  have "re_search sxxeyy_at base = None"
    by (rule re_search_None) (rule sxxeyy_at_None, rule no_digit_subset [OF assms])
  then show "episode_rule1 base = None" by (simp add: episode_rule1_def)
  have "re_search_from nxn_at None base = None"
    by (rule re_search_from_None) (rule nxn_at_None, rule no_digit_subset [OF assms])
  then show "episode_rule2 base = None" by (simp add: episode_rule2_def)
  have "re_search ep_at base = None"
    by (rule re_search_None) (rule ep_at_None, rule no_digit_subset [OF assms])
  then show "episode_rule3 base = None" by (simp add: episode_rule3_def)
  show "episode_rule4 base = None"
    by (simp add: episode_rule4_def leading_digits_None [OF assms])
  show "episode_rule5 base = None"
    by (simp add: episode_rule5_def findall_d12_None [OF assms])
qed

section \<open>Properties of the episode extractor\<close>

text \<open>
  Claim C10. \<^verbatim>\<open>extract_episode_number\<close> returns \<open>None\<close> if and only if the base name
  of the file (directory and extension stripped) contains no decimal digit: on a base
  name with a digit, rule 5 at the latest returns a number.
\<close>

theorem extract_episode_None_iff:
  "(extract_episode_number filename = None)
   = (\<not> list_ex is_digit (fst (splitext (basename filename))))"
proof (cases "list_ex is_digit (fst (splitext (basename filename)))")
  case True
  then have "episode_rule5 (fst (splitext (basename filename))) \<noteq> None"
    by (rule episode_rule5_Some)
  then have "extract_episode_number filename \<noteq> None"
    by (simp add: extract_episode_number_def Let_def split: option.splits)
  with True show ?thesis by simp
next
  case False
  then have "extract_episode_number filename = None"
    by (simp add: extract_episode_number_def Let_def episode_rules_None)
  with False show ?thesis by simp
qed

text \<open>
  Claim C6. The extractor returns 7 for \<^verbatim>\<open>The.Walking.Dead.S01E07.720p.mkv\<close>, 12 for
  \<^verbatim>\<open>Show.1x12.mkv\<close>, 3 for \<^verbatim>\<open>Ep 03 - title.mp4\<close> and 3 for \<^verbatim>\<open>03 Cartman.mkv\<close>.
\<close>

theorem extract_episode_examples:
  "extract_episode_number ''The.Walking.Dead.S01E07.720p.mkv'' = Some 7
   \<and> extract_episode_number ''Show.1x12.mkv'' = Some 12
   \<and> extract_episode_number ''Ep 03 - title.mp4'' = Some 3
   \<and> extract_episode_number ''03 Cartman.mkv'' = Some 3"
  by code_simp






lemma takeWhile_digits: "list_all is_digit (takeWhile is_digit s)"
  unfolding list_all_iff using set_takeWhileD by fastforce

lemma season_at_Some: "season_at t = Some g \<Longrightarrow> g \<noteq> [] \<and> list_all is_digit g"
  by (cases t) (auto simp: season_at_def Let_def takeWhile_digits split: if_splits)

lemma s_at_Some: "s_at t = Some g \<Longrightarrow> g \<noteq> [] \<and> list_all is_digit g"
proof -
  assume a: "s_at t = Some g"
  then obtain c r where t: "t = c # r" by (cases t) (auto simp: s_at_def)
  from a t obtain rest where "digits12 r = Some (g, rest)"
    by (auto simp: s_at_def split: if_splits)
  then show ?thesis using digits12_Some(1,2) by blast
qed

lemma sxxeyy_at_Some:
  assumes "sxxeyy_at t = Some (g1, g2)"
  shows "g1 \<noteq> [] \<and> list_all is_digit g1" and "g2 \<noteq> [] \<and> list_all is_digit g2"
proof -
  from assms obtain c r where t: "t = c # r" by (cases t) (auto simp: sxxeyy_at_def)
  from assms t obtain r1 where d1: "digits12 r = Some (g1, r1)"
    by (auto simp: sxxeyy_at_def split: if_splits option.splits list.splits)
  from assms t d1 obtain r2 r3 where d2: "digits12 r2 = Some (g2, r3)"
    by (auto simp: sxxeyy_at_def split: if_splits option.splits list.splits)
  from d1 show "g1 \<noteq> [] \<and> list_all is_digit g1" using digits12_Some(1,2) by blast
  from d2 show "g2 \<noteq> [] \<and> list_all is_digit g2" using digits12_Some(1,2) by blast
qed

lemma findall_digits_digits:
  "g \<in> set (findall_digits s) \<Longrightarrow> g \<noteq> [] \<and> list_all is_digit g"
proof (induction s rule: findall_digits.induct)
  case 1
  then show ?case by simp
next
  case (2 c cs)
  show ?case
  proof (cases "is_digit c")
    case True
    with 2(3) have "g = c # takeWhile is_digit cs \<or> g \<in> set (findall_digits (dropWhile is_digit cs))"
      by simp
    then show ?thesis
    proof
      assume "g = c # takeWhile is_digit cs"
      with True show ?thesis by (simp add: takeWhile_digits)
    next
      assume "g \<in> set (findall_digits (dropWhile is_digit cs))"
      with 2(1) [OF True] show ?thesis by simp
    qed
  next
    case False
    with 2 show ?thesis by simp
  qed
qed

section \<open>Properties of season inference\<close>

lemma season_ge_1: "1 \<le> extract_season_number_from_folder folder_path"
  unfolding extract_season_number_from_folder_def Let_def
  by (simp split: option.splits list.splits)

lemma season_rule_a:
  assumes "re_search season_at (basename folder_path) = Some g"
  shows "extract_season_number_from_folder folder_path = max 1 (int (digits_value g))"
proof -
  from assms obtain t where "season_at t = Some g" using re_search_Some by fastforce
  then have "g \<noteq> [] \<and> list_all is_digit g" by (rule season_at_Some)
  then have "py_int g = Some (int (digits_value g))" by (simp add: py_int_digits)
  with assms show ?thesis by (simp add: extract_season_number_from_folder_def)
qed

lemma season_rule_b:
  assumes "re_search season_at (basename folder_path) = None"
    and "re_search s_at (basename folder_path) = Some g"
  shows "extract_season_number_from_folder folder_path = max 1 (int (digits_value g))"
proof -
  from assms(2) obtain t where "s_at t = Some g" using re_search_Some by fastforce
  then have "g \<noteq> [] \<and> list_all is_digit g" by (rule s_at_Some)
  then have "py_int g = Some (int (digits_value g))" by (simp add: py_int_digits)
  with assms show ?thesis by (simp add: extract_season_number_from_folder_def)
qed

lemma season_rule_c:
  assumes "re_search season_at (basename folder_path) = None"
    and "re_search s_at (basename folder_path) = None"
    and "findall_digits (basename folder_path) \<noteq> []"
  shows "extract_season_number_from_folder folder_path
         = max 1 (int (digits_value (last (findall_digits (basename folder_path)))))"
proof -
  from assms(3) obtain x xs where f: "findall_digits (basename folder_path) = x # xs"
    by (cases "findall_digits (basename folder_path)") auto
  have "last (x # xs) \<in> set (findall_digits (basename folder_path))"
    unfolding f by (rule last_in_set) simp
  then have "last (x # xs) \<noteq> [] \<and> list_all is_digit (last (x # xs))"
    by (rule findall_digits_digits)
  then have "py_int (last (x # xs)) = Some (int (digits_value (last (x # xs))))"
    by (simp add: py_int_digits)
  with assms(1,2) show ?thesis
    unfolding extract_season_number_from_folder_def Let_def f by (simp del: last.simps)
qed

lemma season_rule_none:
  assumes "re_search season_at (basename folder_path) = None"
    and "re_search s_at (basename folder_path) = None"
    and "findall_digits (basename folder_path) = []"
  shows "extract_season_number_from_folder folder_path = 1"
  using assms by (simp add: extract_season_number_from_folder_def)

lemma guess_season_ge_1: "guess_season_from_files paths = Some n \<Longrightarrow> 1 \<le> n"
  by (induction paths) (auto simp: Let_def split: option.splits)

lemma guess_season_None_iff:
  "(guess_season_from_files paths = None)
   = list_all (\<lambda>p. re_search sxxeyy_at (fst (splitext (basename p))) = None) paths"
proof (induction paths)
  case Nil
  then show ?case by simp
next
  case (Cons p ps)
  show ?case
  proof (cases "re_search sxxeyy_at (fst (splitext (basename p)))")
    case None
    with Cons show ?thesis by (simp add: Let_def)
  next
    case (Some a)
    obtain g1 g2 where a: "a = (g1, g2)" by (cases a)
    from Some a obtain t where "sxxeyy_at t = Some (g1, g2)" using re_search_Some by fastforce
    then have "g1 \<noteq> [] \<and> list_all is_digit g1" by (rule sxxeyy_at_Some(1))
    then have "py_int g1 = Some (int (digits_value g1))" by (simp add: py_int_digits)
    with Some a show ?thesis by (simp add: Let_def)
  qed
qed

text \<open>
  Claim C9. Season inference yields an integer of at least 1.
  \<^verbatim>\<open>extract_season_number_from_folder\<close> returns the value of the first pattern that
  matches the leaf folder name (the word Season and digits, then S and one or two
  digits, then the last run of digits), floored at 1, and 1 when none matches.
  \<^verbatim>\<open>guess_season_from_files\<close> returns \<open>None\<close> exactly when no file name matches the
  SxxEyy pattern, and a number of at least 1 otherwise.
\<close>

theorem season_at_least_one:
  "1 \<le> extract_season_number_from_folder folder_path
   \<and> (\<forall>g. re_search season_at (basename folder_path) = Some g \<longrightarrow>
          extract_season_number_from_folder folder_path = max 1 (int (digits_value g)))
   \<and> (\<forall>g. re_search season_at (basename folder_path) = None
          \<and> re_search s_at (basename folder_path) = Some g \<longrightarrow>
          extract_season_number_from_folder folder_path = max 1 (int (digits_value g)))
   \<and> (re_search season_at (basename folder_path) = None
        \<and> re_search s_at (basename folder_path) = None
        \<and> findall_digits (basename folder_path) \<noteq> [] \<longrightarrow>
          extract_season_number_from_folder folder_path
          = max 1 (int (digits_value (last (findall_digits (basename folder_path))))))
   \<and> (re_search season_at (basename folder_path) = None
        \<and> re_search s_at (basename folder_path) = None
        \<and> findall_digits (basename folder_path) = [] \<longrightarrow>
          extract_season_number_from_folder folder_path = 1)
   \<and> (\<forall>n. guess_season_from_files paths = Some n \<longrightarrow> 1 \<le> n)
   \<and> ((guess_season_from_files paths = None)
        = list_all (\<lambda>p. re_search sxxeyy_at (fst (splitext (basename p))) = None) paths)"
proof (intro conjI allI impI)
  show "1 \<le> extract_season_number_from_folder folder_path" by (rule season_ge_1)
next
  fix g assume "re_search season_at (basename folder_path) = Some g"
  then show "extract_season_number_from_folder folder_path = max 1 (int (digits_value g))"
    by (rule season_rule_a)
next
  fix g assume "re_search season_at (basename folder_path) = None
          \<and> re_search s_at (basename folder_path) = Some g"
  then show "extract_season_number_from_folder folder_path = max 1 (int (digits_value g))"
    using season_rule_b by blast
next
  assume "re_search season_at (basename folder_path) = None
        \<and> re_search s_at (basename folder_path) = None
        \<and> findall_digits (basename folder_path) \<noteq> []"
  then show "extract_season_number_from_folder folder_path
          = max 1 (int (digits_value (last (findall_digits (basename folder_path)))))"
    using season_rule_c by blast
next
  assume "re_search season_at (basename folder_path) = None
        \<and> re_search s_at (basename folder_path) = None
        \<and> findall_digits (basename folder_path) = []"
  then show "extract_season_number_from_folder folder_path = 1"
    using season_rule_none by blast
next
  fix n assume "guess_season_from_files paths = Some n"
  then show "1 \<le> n" by (rule guess_season_ge_1)
next
  show "(guess_season_from_files paths = None)
        = list_all (\<lambda>p. re_search sxxeyy_at (fst (splitext (basename p))) = None) paths"
    by (rule guess_season_None_iff)
qed

theorem season_at_least_one_witness:
  "re_search season_at (basename ''/tv/South Park Season 10'') = Some ''10''
   \<and> extract_season_number_from_folder ''/tv/South Park Season 10''
       = max 1 (int (digits_value ''10''))
   \<and> 1 \<le> extract_season_number_from_folder ''/tv/South Park Season 10''
   \<and> guess_season_from_files [''/tv/a.mkv'', ''/tv/x.S00E03.mkv''] = Some 1
   \<and> (1::int) \<le> 1"
proof -
  have a: "re_search season_at (basename ''/tv/South Park Season 10'') = Some ''10''"
    by code_simp
  have b: "guess_season_from_files [''/tv/a.mkv'', ''/tv/x.S00E03.mkv''] = Some 1"
    by code_simp
  note t = season_at_least_one
    [of "''/tv/South Park Season 10''" "[''/tv/a.mkv'', ''/tv/x.S00E03.mkv'']"]
  from t have c: "1 \<le> extract_season_number_from_folder ''/tv/South Park Season 10''"
    by blast
  from t a have d: "extract_season_number_from_folder ''/tv/South Park Season 10''
       = max 1 (int (digits_value ''10''))"
    by blast
  from t b have e: "(1::int) \<le> 1" by blast
  from a d c b e show ?thesis by (intro conjI)
qed

section \<open>The episode set validator\<close>

text \<open>The exceptions of Python that the modelled code can raise.\<close>

datatype py_error = IndexError | FileNotFoundError

text \<open>
  \<^verbatim>\<open>build_and_verify_episodes\<close> (lines 179 to 228) returns a pair: the sorted items and
  no message, or no items and a message. The four outcomes are the constructors of
  \<open>validation\<close>, which carry the list that the message names; \<open>error_message\<close>
  below renders the text.
\<close>

datatype validation =
    Ok "(int \<times> string) list"
  | UnparsedFiles "string list"
  | DuplicateEpisodes "int list"
  | MissingEpisodes "int list"

text \<open>
  The first loop (lines 189 to 194): the parsed items and the base names of the files
  without an episode number, both in the order of the input.
\<close>

fun parse_files :: "string list \<Rightarrow> (int \<times> string) list \<times> string list" where
  "parse_files [] = ([], [])"
| "parse_files (path # paths) =
     (let (items, unparsed) = parse_files paths in
      case extract_episode_number path of
        None \<Rightarrow> (items, basename path # unparsed)
      | Some ep \<Rightarrow> ((ep, path) # items, unparsed))"

text \<open>
  The sets of the source are lists without duplicates; each is sorted before it is
  used. \<^verbatim>\<open>sorted_nums[0]\<close> on the empty list raises \<^verbatim>\<open>IndexError\<close>.
\<close>

definition build_and_verify_episodes :: "string list \<Rightarrow> py_error + validation" where
  "build_and_verify_episodes video_paths =
     (let (items, unparsed) = parse_files video_paths in
      if unparsed \<noteq> [] then Inr (UnparsedFiles unparsed)
      else
        let nums = map fst items;
            unique_nums = remdups nums;
            duplicates = sort (filter (\<lambda>n. 1 < count_list nums n) unique_nums)
        in if duplicates \<noteq> [] then Inr (DuplicateEpisodes duplicates)
           else
             let sorted_nums = sort unique_nums in
             if sorted_nums = [] then Inl IndexError
             else
               let first = hd sorted_nums;
                   last = last sorted_nums;
                   missing = sort (filter (\<lambda>n. n \<notin> set unique_nums) [first..last])
               in if missing \<noteq> [] then Inr (MissingEpisodes missing)
                  else Inr (Ok (sort_key fst items)))"

text \<open>\<^verbatim>\<open>sep.join(xs)\<close> and the messages of lines 197 to 224.\<close>

fun str_join :: "string \<Rightarrow> string list \<Rightarrow> string" where
  "str_join sep [] = []"
| "str_join sep [x] = x"
| "str_join sep (x # y # ys) = x @ sep @ str_join sep (y # ys)"

fun error_message :: "validation \<Rightarrow> string option" where
  "error_message (Ok items) = None"
| "error_message (UnparsedFiles unparsed) =
     Some (''These files could not be parsed for an episode number:'' @ [CHR 0x0A]
           @ str_join [CHR 0x0A] unparsed)"
| "error_message (DuplicateEpisodes duplicates) =
     Some (''Duplicate episode numbers found (fix manually before renaming):'' @ [CHR 0x0A]
           @ str_join '', '' (map fmt02d duplicates))"
| "error_message (MissingEpisodes missing) =
     Some (''Missing episode numbers in sequence (fix manually before renaming):'' @ [CHR 0x0A]
           @ str_join '', '' (map fmt02d missing))"


subsection \<open>Facts about the validator\<close>

lemma parse_files_unparsed:
  "snd (parse_files paths) = map basename (filter (\<lambda>p. extract_episode_number p = None) paths)"
  by (induction paths) (auto simp: Let_def split: prod.splits option.splits)

lemma parse_files_nums:
  "map fst (fst (parse_files paths)) = List.map_filter extract_episode_number paths"
  by (induction paths) (auto simp: Let_def map_filter_simps split: prod.splits option.splits)

lemma parse_files_items:
  "filter (\<lambda>p. extract_episode_number p = None) paths = [] \<Longrightarrow>
   fst (parse_files paths) = zip (List.map_filter extract_episode_number paths) paths"
  by (induction paths) (auto simp: Let_def map_filter_simps split: prod.splits option.splits if_splits)

lemma parse_files_length:
  "filter (\<lambda>p. extract_episode_number p = None) paths = [] \<Longrightarrow>
   length (List.map_filter extract_episode_number paths) = length paths"
  by (induction paths) (auto simp: map_filter_simps split: option.splits if_splits)

lemma distinct_count_list: "distinct xs \<longleftrightarrow> (\<forall>x. count_list xs x \<le> 1)"
proof (induction xs)
  case Nil
  then show ?case by simp
next
  case (Cons a xs)
  show ?case
  proof
    assume d: "distinct (a # xs)"
    then have "count_list xs a = 0" by (simp add: count_list_0_iff)
    moreover from d Cons have "\<forall>x. count_list xs x \<le> 1" by simp
    ultimately show "\<forall>x. count_list (a # xs) x \<le> 1" by simp
  next
    assume c: "\<forall>x. count_list (a # xs) x \<le> 1"
    then have "count_list (a # xs) a \<le> 1" by blast
    then have "count_list xs a = 0" by simp
    then have na: "a \<notin> set xs" by (simp add: count_list_0_iff)
    have "count_list xs x \<le> 1" for x
      using c [rule_format, of x] by (simp split: if_splits)
    with Cons have "distinct xs" by blast
    with na show "distinct (a # xs)" by simp
  qed
qed

lemma sorted_hd_Min:
  fixes ys :: "int list"
  assumes "sorted ys" and "ys \<noteq> []"
  shows "hd ys = Min (set ys)"
proof -
  from assms obtain y t where ys: "ys = y # t" by (cases ys) auto
  with assms(1) have "\<forall>z\<in>set ys. y \<le> z" by auto
  then have "Min (set ys) = y" using ys by (intro Min_eqI) auto
  with ys show ?thesis by simp
qed

lemma sorted_last_Max:
  fixes ys :: "int list"
  assumes "sorted ys" and "ys \<noteq> []"
  shows "last ys = Max (set ys)"
proof -
  have "z \<le> last ys" if "z \<in> set ys" for z
  proof -
    from that obtain i where i: "i < length ys" "ys ! i = z" by (auto simp: in_set_conv_nth)
    then have "ys ! i \<le> ys ! (length ys - 1)"
      using assms(1) by (intro sorted_nth_mono) auto
    with i assms(2) show ?thesis by (simp add: last_conv_nth)
  qed
  moreover have "last ys \<in> set ys" using assms(2) by simp
  ultimately have "Max (set ys) = last ys" by (intro Max_eqI) auto
  then show ?thesis by simp
qed

lemma validate_unparsed:
  assumes "filter (\<lambda>p. extract_episode_number p = None) paths \<noteq> []"
  shows "build_and_verify_episodes paths
         = Inr (UnparsedFiles (map basename (filter (\<lambda>p. extract_episode_number p = None) paths)))"
proof -
  obtain items unparsed where p: "parse_files paths = (items, unparsed)"
    by (cases "parse_files paths")
  then have u: "unparsed = map basename (filter (\<lambda>p. extract_episode_number p = None) paths)"
    using parse_files_unparsed [of paths] by simp
  with assms have "unparsed \<noteq> []" by simp
  then show ?thesis unfolding build_and_verify_episodes_def p u [symmetric] by simp
qed

lemma validate_parsed:
  assumes "filter (\<lambda>p. extract_episode_number p = None) paths = []"
  defines "nums \<equiv> List.map_filter extract_episode_number paths"
  defines "duplicates \<equiv> sort (filter (\<lambda>n. 1 < count_list nums n) (remdups nums))"
  defines "missing \<equiv> sort (filter (\<lambda>n. n \<notin> set (remdups nums))
                               [hd (sort (remdups nums))..last (sort (remdups nums))])"
  shows "build_and_verify_episodes paths =
         (if duplicates \<noteq> [] then Inr (DuplicateEpisodes duplicates)
          else if sort (remdups nums) = [] then Inl IndexError
          else if missing \<noteq> [] then Inr (MissingEpisodes missing)
          else Inr (Ok (sort_key fst (zip nums paths))))"
proof -
  obtain items unparsed where p: "parse_files paths = (items, unparsed)"
    by (cases "parse_files paths")
  from p assms(1) have u: "unparsed = []"
    using parse_files_unparsed [of paths] by simp
  from p have n: "map fst items = nums"
    using parse_files_nums [of paths] by (simp add: nums_def)
  from p assms(1) have i: "items = zip nums paths"
    using parse_files_items [of paths] by (simp add: nums_def)
  from n i have n': "map fst (zip nums paths) = nums" by simp
  show ?thesis
    unfolding build_and_verify_episodes_def p i
    by (simp add: u n' Let_def duplicates_def missing_def)
qed


lemma duplicates_set:
  "set (sort (filter (\<lambda>n. 1 < count_list nums n) (remdups nums))) = {n. 1 < count_list nums n}"
proof -
  have "n \<in> set nums" if "1 < count_list nums n" for n
    using that count_list_0_iff [of nums n] by (cases "n \<in> set nums") auto
  then show ?thesis by auto
qed

lemma duplicates_empty_iff:
  "sort (filter (\<lambda>n. 1 < count_list nums n) (remdups nums)) = [] \<longleftrightarrow> distinct nums"
proof -
  have "sort (filter (\<lambda>n. 1 < count_list nums n) (remdups nums)) = []
        \<longleftrightarrow> {n. 1 < count_list nums n} = {}"
    using duplicates_set [of nums] by (metis set_empty)
  also have "\<dots> \<longleftrightarrow> (\<forall>n. count_list nums n \<le> 1)" by (auto simp: not_less)
  also have "\<dots> \<longleftrightarrow> distinct nums" by (simp add: distinct_count_list)
  finally show ?thesis .
qed

lemma first_last_sorted:
  fixes nums :: "int list"
  assumes "nums \<noteq> []"
  shows "hd (sort (remdups nums)) = Min (set nums)"
    and "last (sort (remdups nums)) = Max (set nums)"
proof -
  have ne: "sort (remdups nums) \<noteq> []" using assms by (metis set_empty set_remdups set_sort)
  have "hd (sort (remdups nums)) = Min (set (sort (remdups nums)))"
    by (rule sorted_hd_Min) (simp_all add: ne)
  then show "hd (sort (remdups nums)) = Min (set nums)" by simp
  have "last (sort (remdups nums)) = Max (set (sort (remdups nums)))"
    by (rule sorted_last_Max) (simp_all add: ne)
  then show "last (sort (remdups nums)) = Max (set nums)" by simp
qed

text \<open>
  Claim C1, for a non-empty list of paths. With \<open>unparsed\<close> the files on which the
  extractor returns \<open>None\<close> and \<open>nums\<close> the extracted numbers:
  if some file is unparsed the result is \<open>UnparsedFiles\<close> with the base name of every
  such file, whatever the numbers are; otherwise, if a number occurs more than once, the
  result is \<open>DuplicateEpisodes\<close> with the sorted distinct duplicated values; otherwise,
  if an integer between the least and the greatest number is absent, the result is
  \<open>MissingEpisodes\<close> with the sorted absent integers; otherwise the result is \<open>Ok\<close>
  with the items sorted by episode number. A batch of one parsed file succeeds.
\<close>

theorem validation_cascade:
  "video_paths \<noteq> [] \<Longrightarrow>
   (let nums = List.map_filter extract_episode_number video_paths;
        unparsed = filter (\<lambda>p. extract_episode_number p = None) video_paths
    in (unparsed \<noteq> [] \<longrightarrow>
          build_and_verify_episodes video_paths = Inr (UnparsedFiles (map basename unparsed)))
     \<and> (unparsed = [] \<and> \<not> distinct nums \<longrightarrow>
          (\<exists>ds. build_and_verify_episodes video_paths = Inr (DuplicateEpisodes ds)
                \<and> sorted ds \<and> distinct ds \<and> set ds = {n. 1 < count_list nums n}))
     \<and> (unparsed = [] \<and> distinct nums \<and> \<not> {Min (set nums)..Max (set nums)} \<subseteq> set nums \<longrightarrow>
          (\<exists>ms. build_and_verify_episodes video_paths = Inr (MissingEpisodes ms)
                \<and> sorted ms \<and> distinct ms
                \<and> set ms = {Min (set nums)..Max (set nums)} - set nums))
     \<and> (unparsed = [] \<and> distinct nums \<and> {Min (set nums)..Max (set nums)} \<subseteq> set nums \<longrightarrow>
          (\<exists>items. build_and_verify_episodes video_paths = Inr (Ok items)
                \<and> sorted (map fst items) \<and> distinct items
                \<and> set items = set (zip nums video_paths)
                \<and> length items = length video_paths))
     \<and> (\<forall>p n. video_paths = [p] \<and> extract_episode_number p = Some n \<longrightarrow>
          build_and_verify_episodes video_paths = Inr (Ok [(n, p)])))"
proof -
  assume ne: "video_paths \<noteq> []"
  define nums where "nums = List.map_filter extract_episode_number video_paths"
  define unparsed where "unparsed = filter (\<lambda>p. extract_episode_number p = None) video_paths"
  define ds where "ds = sort (filter (\<lambda>n. 1 < count_list nums n) (remdups nums))"
  define ms where "ms = sort (filter (\<lambda>n. n \<notin> set (remdups nums))
                               [hd (sort (remdups nums))..last (sort (remdups nums))])"
  have eq: "build_and_verify_episodes video_paths =
         (if ds \<noteq> [] then Inr (DuplicateEpisodes ds)
          else if sort (remdups nums) = [] then Inl IndexError
          else if ms \<noteq> [] then Inr (MissingEpisodes ms)
          else Inr (Ok (sort_key fst (zip nums video_paths))))" if "unparsed = []"
    using validate_parsed [of video_paths] that
    unfolding unparsed_def nums_def ds_def ms_def by simp
  have len: "length nums = length video_paths" if "unparsed = []"
    using parse_files_length [of video_paths] that unfolding unparsed_def nums_def by simp
  have nne: "nums \<noteq> []" if "unparsed = []"
    using len [OF that] ne by auto
  have 1: "build_and_verify_episodes video_paths = Inr (UnparsedFiles (map basename unparsed))"
    if "unparsed \<noteq> []"
    using validate_unparsed [of video_paths] that unfolding unparsed_def by simp
  have 2: "\<exists>ds. build_and_verify_episodes video_paths = Inr (DuplicateEpisodes ds)
                \<and> sorted ds \<and> distinct ds \<and> set ds = {n. 1 < count_list nums n}"
    if u: "unparsed = []" and d: "\<not> distinct nums"
  proof -
    from d have "ds \<noteq> []" unfolding ds_def using duplicates_empty_iff [of nums] by blast
    with eq [OF u] have "build_and_verify_episodes video_paths = Inr (DuplicateEpisodes ds)"
      by simp
    moreover have "sorted ds" unfolding ds_def by simp
    moreover have "distinct ds" unfolding ds_def by simp
    moreover have "set ds = {n. 1 < count_list nums n}" unfolding ds_def by (rule duplicates_set)
    ultimately show ?thesis by blast
  qed
  have dse: "ds = []" if "distinct nums"
    using that unfolding ds_def using duplicates_empty_iff [of nums] by blast
  have sne: "sort (remdups nums) \<noteq> []" if "unparsed = []"
    using nne [OF that] by (metis set_empty set_remdups set_sort)
  have ms_set: "set ms = {Min (set nums)..Max (set nums)} - set nums" if "unparsed = []"
    unfolding ms_def using first_last_sorted [OF nne [OF that]] by auto
  have 3: "\<exists>ms. build_and_verify_episodes video_paths = Inr (MissingEpisodes ms)
                \<and> sorted ms \<and> distinct ms
                \<and> set ms = {Min (set nums)..Max (set nums)} - set nums"
    if u: "unparsed = []" and d: "distinct nums"
      and m: "\<not> {Min (set nums)..Max (set nums)} \<subseteq> set nums"
  proof -
    from m have "{Min (set nums)..Max (set nums)} - set nums \<noteq> {}"
      by (simp only: Diff_eq_empty_iff not_False_eq_True)
    with ms_set [OF u] have "set ms \<noteq> {}" by simp
    then have "ms \<noteq> []" by auto
    with eq [OF u] dse [OF d] sne [OF u]
    have "build_and_verify_episodes video_paths = Inr (MissingEpisodes ms)" by simp
    moreover have "sorted ms" unfolding ms_def by simp
    moreover have "distinct ms" unfolding ms_def by simp
    ultimately show ?thesis using ms_set [OF u] by blast
  qed
  have 4: "\<exists>items. build_and_verify_episodes video_paths = Inr (Ok items)
                \<and> sorted (map fst items) \<and> distinct items
                \<and> set items = set (zip nums video_paths)
                \<and> length items = length video_paths"
    if u: "unparsed = []" and d: "distinct nums"
      and m: "{Min (set nums)..Max (set nums)} \<subseteq> set nums"
  proof -
    from m have "{Min (set nums)..Max (set nums)} - set nums = {}"
      by (simp only: Diff_eq_empty_iff)
    with ms_set [OF u] have "set ms = {}" by simp
    then have "ms = []" by simp
    with eq [OF u] dse [OF d] sne [OF u]
    have "build_and_verify_episodes video_paths = Inr (Ok (sort_key fst (zip nums video_paths)))"
      by simp
    moreover have "sorted (map fst (sort_key fst (zip nums video_paths)))"
      by (rule sorted_sort_key)
    moreover have "distinct (sort_key fst (zip nums video_paths))"
      using d by (simp add: distinct_zipI1)
    moreover have "length (sort_key fst (zip nums video_paths)) = length video_paths"
      using len [OF u] by simp
    ultimately show ?thesis by force
  qed
  have 5: "build_and_verify_episodes video_paths = Inr (Ok [(n, p)])"
    if "video_paths = [p] \<and> extract_episode_number p = Some n" for p n
    using that by (simp add: build_and_verify_episodes_def)
  from 1 2 3 4 5 show ?thesis
    unfolding Let_def nums_def [symmetric] unparsed_def [symmetric] by blast
qed

theorem validation_cascade_witness:
  "[''/tv/e3.mkv'', ''/tv/e1.mkv'', ''/tv/e4.mkv''] \<noteq> []
   \<and> build_and_verify_episodes [''/tv/e3.mkv'', ''/tv/e1.mkv'', ''/tv/e4.mkv'']
       = Inr (MissingEpisodes [2])
   \<and> build_and_verify_episodes [''/tv/e2.mkv'', ''/tv/e1.mkv'', ''/tv/x/e2.mkv'', ''/tv/e4.mkv'']
       = Inr (DuplicateEpisodes [2])
   \<and> build_and_verify_episodes [''/tv/e3.mkv'', ''/tv/abc.mkv'', ''/tv/e2.mkv'']
       = Inr (UnparsedFiles [''abc.mkv''])
   \<and> build_and_verify_episodes [''/tv/e3.mkv'', ''/tv/e1.mkv'', ''/tv/e2.mkv'']
       = Inr (Ok [(1, ''/tv/e1.mkv''), (2, ''/tv/e2.mkv''), (3, ''/tv/e3.mkv'')])
   \<and> build_and_verify_episodes [''/tv/e5.mkv''] = Inr (Ok [(5, ''/tv/e5.mkv'')])"
proof -
  have a: "[''/tv/e3.mkv'', ''/tv/e1.mkv'', ''/tv/e4.mkv''] \<noteq> []" by simp
  have b: "build_and_verify_episodes [''/tv/e3.mkv'', ''/tv/e1.mkv'', ''/tv/e4.mkv'']
       = Inr (MissingEpisodes [2])" by code_simp
  have c: "build_and_verify_episodes [''/tv/e2.mkv'', ''/tv/e1.mkv'', ''/tv/x/e2.mkv'', ''/tv/e4.mkv'']
       = Inr (DuplicateEpisodes [2])" by code_simp
  have u: "filter (\<lambda>p. extract_episode_number p = None)
             [''/tv/e3.mkv'', ''/tv/abc.mkv'', ''/tv/e2.mkv''] = [''/tv/abc.mkv'']"
    by code_simp
  have m: "[''/tv/e3.mkv'', ''/tv/abc.mkv'', ''/tv/e2.mkv''] \<noteq> []" by simp
  from validation_cascade [OF m]
  have "build_and_verify_episodes [''/tv/e3.mkv'', ''/tv/abc.mkv'', ''/tv/e2.mkv'']
       = Inr (UnparsedFiles (map basename [''/tv/abc.mkv'']))"
    unfolding Let_def u by blast
  moreover have "map basename [''/tv/abc.mkv''] = [''abc.mkv'']" by code_simp
  ultimately have d: "build_and_verify_episodes [''/tv/e3.mkv'', ''/tv/abc.mkv'', ''/tv/e2.mkv'']
       = Inr (UnparsedFiles [''abc.mkv''])" by simp
  have e: "build_and_verify_episodes [''/tv/e3.mkv'', ''/tv/e1.mkv'', ''/tv/e2.mkv'']
       = Inr (Ok [(1, ''/tv/e1.mkv''), (2, ''/tv/e2.mkv''), (3, ''/tv/e3.mkv'')])" by code_simp
  have x: "extract_episode_number ''/tv/e5.mkv'' = Some 5" by code_simp
  have n: "[''/tv/e5.mkv''] \<noteq> []" by simp
  from validation_cascade [OF n] x
  have f: "build_and_verify_episodes [''/tv/e5.mkv''] = Inr (Ok [(5, ''/tv/e5.mkv'')])"
    unfolding Let_def by blast
  from a b c d e f show ?thesis by (intro conjI)
qed

text \<open>
  Claim C1 is stated for every list of paths. On the empty list no file is unparsed and
  no number is duplicated, and the function does not return: line 215 reads
  \<^verbatim>\<open>sorted_nums[0]\<close> of an empty list. The callers (lines 369 and 397) only pass
  non-empty lists.
\<close>

theorem validation_empty_counterexample:
  "build_and_verify_episodes [] = Inl IndexError"
  by (simp add: build_and_verify_episodes_def)

section \<open>Target names and the rename loop\<close>

text \<open>
  The extension of the source file, lower-cased, or \<^verbatim>\<open>.mp4\<close> (lines 706, 642), and the
  two name templates (lines 708 to 711 and 722 to 725).
\<close>

definition ext_of :: "string \<Rightarrow> string" where
  "ext_of path = (let ext = lower (snd (splitext path)) in if ext = [] then ''.mp4'' else ext)"

definition target_name :: "string \<Rightarrow> string \<Rightarrow> int \<Rightarrow> string \<Rightarrow> string" where
  "target_name show_name season_str ep_num ext =
     (if show_name \<noteq> [] then show_name @ ''.s'' @ season_str @ ''.e'' @ fmt02d ep_num @ ext
      else ''s'' @ season_str @ ''e'' @ fmt02d ep_num @ ext)"

definition candidate_name :: "string \<Rightarrow> string \<Rightarrow> int \<Rightarrow> nat \<Rightarrow> string \<Rightarrow> string" where
  "candidate_name show_name season_str ep_num suffix ext =
     (if show_name \<noteq> []
      then show_name @ ''.s'' @ season_str @ ''.e'' @ fmt02d ep_num @ ''_'' @ py_str suffix @ ext
      else ''s'' @ season_str @ ''e'' @ fmt02d ep_num @ ''_'' @ py_str suffix @ ext)"

subsection \<open>Suffixed names are pairwise different\<close>

declare py_str.simps [simp del]

lemma digit_val_digit_char: "d < 10 \<Longrightarrow> digit_val (digit_char d) = d"
proof -
  assume "d < 10"
  then have "d \<in> {0, 1, 2, 3, 4, 5, 6, 7, 8, 9}" by auto
  then show ?thesis by (auto simp: digit_val_def digit_char_def)
qed

lemma digits_value_append:
  "digits_value (s @ [c]) = 10 * digits_value s + digit_val c"
  by (simp add: digits_value_def)

lemma digits_value_py_str: "digits_value (py_str n) = n"
proof (induction n rule: py_str.induct)
  case (1 n)
  show ?case
  proof (cases "n < 10")
    case True
    then show ?thesis
      by (subst py_str.simps) (simp add: digits_value_def digit_val_digit_char)
  next
    case False
    then have "digits_value (py_str n)
               = 10 * digits_value (py_str (n div 10)) + digit_val (digit_char (n mod 10))"
      by (subst py_str.simps) (simp add: digits_value_append)
    also have "\<dots> = 10 * (n div 10) + n mod 10"
      using 1 False by (simp add: digit_val_digit_char)
    finally show ?thesis by simp
  qed
qed

lemma py_str_inj: "py_str a = py_str b \<Longrightarrow> a = b"
  using digits_value_py_str by metis

lemma candidate_name_inj:
  "candidate_name show_name season_str ep_num a ext
   = candidate_name show_name season_str ep_num b ext \<Longrightarrow> a = b"
proof -
  assume "candidate_name show_name season_str ep_num a ext
          = candidate_name show_name season_str ep_num b ext"
  then have "py_str a @ ext = py_str b @ ext"
    by (simp add: candidate_name_def split: if_splits)
  then have "py_str a = py_str b" by simp
  then show "a = b" by (rule py_str_inj)
qed

lemma candidate_name_hd:
  "candidate_name show_name season_str ep_num a ext \<noteq> []
   \<and> hd (candidate_name show_name season_str ep_num a ext)
     = hd (candidate_name show_name season_str ep_num b ext)"
  by (auto simp: candidate_name_def)

lemma join_inj:
  assumes "join folder x = join folder y" and "x \<noteq> []" and "y \<noteq> []" and "hd x = hd y"
  shows "x = y"
  using assms by (auto simp: join_def split: if_splits)

lemma candidate_path_inj:
  "inj (\<lambda>k. join folder (candidate_name show_name season_str ep_num k ext))"
proof (rule injI)
  fix a b
  assume eq: "join folder (candidate_name show_name season_str ep_num a ext)
          = join folder (candidate_name show_name season_str ep_num b ext)"
  have na: "candidate_name show_name season_str ep_num a ext \<noteq> []"
    and hd: "hd (candidate_name show_name season_str ep_num a ext)
             = hd (candidate_name show_name season_str ep_num b ext)"
    using candidate_name_hd [of show_name season_str ep_num a ext b] by simp_all
  have nb: "candidate_name show_name season_str ep_num b ext \<noteq> []"
    using candidate_name_hd [of show_name season_str ep_num b ext a] by simp
  from eq na nb hd have "candidate_name show_name season_str ep_num a ext
             = candidate_name show_name season_str ep_num b ext"
    by (rule join_inj)
  then show "a = b" by (rule candidate_name_inj)
qed

lemma taken_suffixes_finite:
  "finite {k. s \<le> k \<and> join folder (candidate_name show_name season_str ep_num k ext) \<in> set files}"
proof -
  have "finite ((\<lambda>k. join folder (candidate_name show_name season_str ep_num k ext)) -` set files)"
    by (rule finite_vimageI) (simp, rule candidate_path_inj)
  then show ?thesis by (rule rev_finite_subset) auto
qed

text \<open>
  The loop of lines 718 to 727 (and 655 to 664): while the candidate exists, the next
  suffixed name is tried. \<open>files\<close> is the list of the paths for which
  \<^verbatim>\<open>os.path.exists\<close> is true. The loop ends on every such list, because the suffixed
  names are pairwise different and only finitely many of them can exist.
\<close>

function free_candidate ::
  "string list \<Rightarrow> string \<Rightarrow> string \<Rightarrow> string \<Rightarrow> int \<Rightarrow> string \<Rightarrow> string \<Rightarrow> nat \<Rightarrow> string" where
  "free_candidate files folder show_name season_str ep_num ext candidate suffix =
     (if candidate \<in> set files
      then free_candidate files folder show_name season_str ep_num ext
             (join folder (candidate_name show_name season_str ep_num suffix ext)) (suffix + 1)
      else candidate)"
  by pat_completeness auto
termination
proof (relation "measure (\<lambda>(files, folder, show_name, season_str, ep_num, ext, candidate, suffix).
    if candidate \<in> set files
    then 1 + card {k. suffix \<le> k
                     \<and> join folder (candidate_name show_name season_str ep_num k ext) \<in> set files}
    else 0)")
  show "wf (measure (\<lambda>(files, folder, show_name, season_str, ep_num, ext, candidate, suffix).
    if candidate \<in> set files
    then 1 + card {k. suffix \<le> k
                     \<and> join folder (candidate_name show_name season_str ep_num k ext) \<in> set files}
    else 0))" by simp
next
  fix files :: "string list" and folder show_name season_str :: string and ep_num :: int
    and ext candidate :: string and suffix :: nat
  assume c: "candidate \<in> set files"
  let ?c = "\<lambda>k. join folder (candidate_name show_name season_str ep_num k ext)"
  let ?A = "\<lambda>s. {k. s \<le> k \<and> ?c k \<in> set files}"
  have "card (?A (suffix + 1)) < card (?A suffix)" if "?c suffix \<in> set files"
  proof (rule psubset_card_mono)
    show "finite (?A suffix)" by (rule taken_suffixes_finite)
    from that have "suffix \<in> ?A suffix" by simp
    moreover have "suffix \<notin> ?A (suffix + 1)" by simp
    moreover have "?A (suffix + 1) \<subseteq> ?A suffix" by auto
    ultimately show "?A (suffix + 1) \<subset> ?A suffix" by blast
  qed
  with c show "((files, folder, show_name, season_str, ep_num, ext, ?c suffix, suffix + 1),
         (files, folder, show_name, season_str, ep_num, ext, candidate, suffix))
        \<in> measure (\<lambda>(files, folder, show_name, season_str, ep_num, ext, candidate, suffix).
    if candidate \<in> set files
    then 1 + card {k. suffix \<le> k
                     \<and> join folder (candidate_name show_name season_str ep_num k ext) \<in> set files}
    else 0)" by auto
qed


declare free_candidate.simps [simp del]

text \<open>
  The state of a run of \<^verbatim>\<open>rename_files\<close>. \<^verbatim>\<open>os.path.exists\<close> follows symbolic
  links, \<^verbatim>\<open>os.rename\<close> works on directory entries: \<open>files\<close> are the paths for which
  \<^verbatim>\<open>os.path.exists\<close> is true, \<open>dangling\<close> the directory entries for which it is false
  (symbolic links whose target is missing). \<open>overwritten\<close> and \<open>replaced_links\<close>
  record the destinations of the one and of the other kind that \<^verbatim>\<open>os.rename\<close> replaced,
  and \<open>renamed_count\<close> is the counter of line 690. \<^verbatim>\<open>os.rename\<close> raises when the
  source is no directory entry; otherwise it moves the entry and replaces the entry at the
  destination, of whichever kind.
\<close>

record rename_state =
  files :: "string list"
  dangling :: "string list"
  overwritten :: "string list"
  replaced_links :: "string list"
  renamed_count :: nat

definition os_rename :: "string \<Rightarrow> string \<Rightarrow> rename_state \<Rightarrow> py_error option \<times> rename_state" where
  "os_rename src dst st =
     (if src \<notin> set (files st) \<and> src \<notin> set (dangling st) then (Some FileNotFoundError, st)
      else
        (None,
         st\<lparr>files := (if src \<in> set (files st) then [dst] else [])
                       @ filter (\<lambda>p. p \<noteq> src \<and> p \<noteq> dst) (files st),
            dangling := (if src \<in> set (files st) then [] else [dst])
                       @ filter (\<lambda>p. p \<noteq> src \<and> p \<noteq> dst) (dangling st),
            overwritten := (if dst \<in> set (files st) \<and> dst \<noteq> src
                            then dst # overwritten st else overwritten st),
            replaced_links := (if dst \<in> set (dangling st) \<and> dst \<noteq> src
                               then dst # replaced_links st else replaced_links st)\<rparr>))"

text \<open>The computed target path (line 713) and the path tried with a suffix (line 726).\<close>

definition new_path_of :: "string \<Rightarrow> string \<Rightarrow> int \<Rightarrow> string \<Rightarrow> string" where
  "new_path_of show_name season_str ep_num old_path =
     join (dirname old_path) (target_name show_name season_str ep_num (ext_of old_path))"


definition choose_target :: "string list \<Rightarrow> string \<Rightarrow> string \<Rightarrow> int \<Rightarrow> string \<Rightarrow> string" where
  "choose_target existing show_name season_str ep_num old_path =
     free_candidate existing (dirname old_path) show_name season_str ep_num (ext_of old_path)
       (new_path_of show_name season_str ep_num old_path) 1"

text \<open>
  The body of the loop over the items (lines 704 to 730 and 640 to 667).
  \<^verbatim>\<open>os.path.abspath\<close> depends on the working directory and is a parameter. An
  exception ends the run with the state reached so far.
\<close>

definition rename_item ::
  "(string \<Rightarrow> string) \<Rightarrow> string \<Rightarrow> string \<Rightarrow> int \<Rightarrow> string \<Rightarrow> rename_state
   \<Rightarrow> py_error option \<times> rename_state" where
  "rename_item abspath show_name season_str ep_num old_path st =
     (let new_path = new_path_of show_name season_str ep_num old_path
      in if abspath old_path = abspath new_path then (None, st)
         else
           let candidate = choose_target (files st) show_name season_str ep_num old_path
           in case os_rename old_path candidate st of
                (Some e, st') \<Rightarrow> (Some e, st')
              | (None, st') \<Rightarrow> (None, st'\<lparr>renamed_count := renamed_count st' + 1\<rparr>))"

fun rename_tv_items ::
  "(string \<Rightarrow> string) \<Rightarrow> string \<Rightarrow> string \<Rightarrow> (int \<times> string) list \<Rightarrow> rename_state
   \<Rightarrow> py_error option \<times> rename_state" where
  "rename_tv_items abspath show_name season_str [] st = (None, st)"
| "rename_tv_items abspath show_name season_str ((ep_num, old_path) # items) st =
     (case rename_item abspath show_name season_str ep_num old_path st of
        (Some e, st') \<Rightarrow> (Some e, st')
      | (None, st') \<Rightarrow> rename_tv_items abspath show_name season_str items st')"

fun rename_multi_items ::
  "(string \<Rightarrow> string) \<Rightarrow> string \<Rightarrow> (int \<times> int \<times> string) list \<Rightarrow> rename_state
   \<Rightarrow> py_error option \<times> rename_state" where
  "rename_multi_items abspath show_name [] st = (None, st)"
| "rename_multi_items abspath show_name ((season, ep_num, old_path) # items) st =
     (case rename_item abspath show_name (fmt02d season) ep_num old_path st of
        (Some e, st') \<Rightarrow> (Some e, st')
      | (None, st') \<Rightarrow> rename_multi_items abspath show_name items st')"

text \<open>
  \<^verbatim>\<open>rename_files\<close> in the single-season and in the multi-season mode: nothing is renamed
  when there are no items.
\<close>

definition rename_files_tv ::
  "(string \<Rightarrow> string) \<Rightarrow> string \<Rightarrow> int \<Rightarrow> (int \<times> string) list option \<Rightarrow> rename_state
   \<Rightarrow> py_error option \<times> rename_state" where
  "rename_files_tv abspath show_name season items st =
     (case items of
        None \<Rightarrow> (None, st)
      | Some [] \<Rightarrow> (None, st)
      | Some (i # is) \<Rightarrow> rename_tv_items abspath show_name (fmt02d season) (i # is) (st\<lparr>renamed_count := 0\<rparr>))"

definition rename_files_multi ::
  "(string \<Rightarrow> string) \<Rightarrow> string \<Rightarrow> (int \<times> int \<times> string) list option \<Rightarrow> rename_state
   \<Rightarrow> py_error option \<times> rename_state" where
  "rename_files_multi abspath show_name multi_items st =
     (case multi_items of
        None \<Rightarrow> (None, st)
      | Some [] \<Rightarrow> (None, st)
      | Some (i # is) \<Rightarrow> rename_multi_items abspath show_name (i # is) (st\<lparr>renamed_count := 0\<rparr>))"


subsection \<open>Facts about the rename loop\<close>










subsection \<open>The movie mode\<close>












lemma rename_item_identity:
  "abspath old_path = abspath (new_path_of show_name season_str ep_num old_path) \<Longrightarrow>
   rename_item abspath show_name season_str ep_num old_path st = (None, st)"
  by (simp add: rename_item_def)

lemma rename_tv_items_append:
  "rename_tv_items abspath show_name season_str (xs @ ys) st =
     (case rename_tv_items abspath show_name season_str xs st of
        (Some e, st') \<Rightarrow> (Some e, st')
      | (None, st') \<Rightarrow> rename_tv_items abspath show_name season_str ys st')"
proof (induction xs arbitrary: st)
  case Nil
  then show ?case by simp
next
  case (Cons i xs)
  obtain ep_num old_path where i: "i = (ep_num, old_path)" by (cases i)
  obtain e st' where r: "rename_item abspath show_name season_str ep_num old_path st = (e, st')"
    by (cases "rename_item abspath show_name season_str ep_num old_path st")
  show ?case using Cons [of st'] by (cases e) (simp_all add: i r)
qed

lemma rename_item_count:
  assumes "rename_item abspath show_name season_str ep_num old_path st = (None, st')"
  shows "renamed_count st' = renamed_count st
         + (if abspath old_path = abspath (new_path_of show_name season_str ep_num old_path)
            then 0 else 1)"
proof (cases "abspath old_path = abspath (new_path_of show_name season_str ep_num old_path)")
  case True
  with assms show ?thesis by (simp add: rename_item_def)
next
  case False
  define candidate where "candidate = choose_target (files st) show_name season_str ep_num old_path"
  obtain e st2 where r: "os_rename old_path candidate st = (e, st2)"
    by (cases "os_rename old_path candidate st")
  then have "renamed_count st2 = renamed_count st"
    by (auto simp: os_rename_def split: if_splits)
  with False r assms show ?thesis
    unfolding rename_item_def Let_def candidate_def [symmetric]
    by (cases e) auto
qed

lemma rename_tv_items_count:
  "rename_tv_items abspath show_name season_str items st = (None, st') \<Longrightarrow>
   renamed_count st' = renamed_count st
     + length (filter (\<lambda>(ep_num, old_path).
         abspath old_path \<noteq> abspath (new_path_of show_name season_str ep_num old_path)) items)"
proof (induction items arbitrary: st)
  case Nil
  then show ?case by simp
next
  case (Cons i items)
  obtain ep_num old_path where i: "i = (ep_num, old_path)" by (cases i)
  obtain e st1 where r: "rename_item abspath show_name season_str ep_num old_path st = (e, st1)"
    by (cases "rename_item abspath show_name season_str ep_num old_path st")
  with Cons.prems i have e: "e = None" by (cases e) auto
  with Cons.prems i r have "rename_tv_items abspath show_name season_str items st1 = (None, st')"
    by simp
  then have "renamed_count st' = renamed_count st1
     + length (filter (\<lambda>(ep_num, old_path).
         abspath old_path \<noteq> abspath (new_path_of show_name season_str ep_num old_path)) items)"
    by (rule Cons.IH)
  moreover from r e have "renamed_count st1 = renamed_count st
         + (if abspath old_path = abspath (new_path_of show_name season_str ep_num old_path)
            then 0 else 1)"
    by (intro rename_item_count) simp
  ultimately show ?case by (simp add: i)
qed

lemma rename_multi_items_append:
  "rename_multi_items abspath show_name (xs @ ys) st =
     (case rename_multi_items abspath show_name xs st of
        (Some e, st') \<Rightarrow> (Some e, st')
      | (None, st') \<Rightarrow> rename_multi_items abspath show_name ys st')"
proof (induction xs arbitrary: st)
  case Nil
  then show ?case by simp
next
  case (Cons i xs)
  obtain season ep_num old_path where i: "i = (season, ep_num, old_path)" by (cases i)
  obtain e st' where r: "rename_item abspath show_name (fmt02d season) ep_num old_path st = (e, st')"
    by (cases "rename_item abspath show_name (fmt02d season) ep_num old_path st")
  show ?case using Cons [of st'] by (cases e) (simp_all add: i r)
qed

lemma rename_multi_items_count:
  "rename_multi_items abspath show_name items st = (None, st') \<Longrightarrow>
   renamed_count st' = renamed_count st
     + length (filter (\<lambda>(season, ep_num, old_path).
         abspath old_path \<noteq> abspath (new_path_of show_name (fmt02d season) ep_num old_path)) items)"
proof (induction items arbitrary: st)
  case Nil
  then show ?case by simp
next
  case (Cons i items)
  obtain season ep_num old_path where i: "i = (season, ep_num, old_path)" by (cases i)
  obtain e st1 where r: "rename_item abspath show_name (fmt02d season) ep_num old_path st = (e, st1)"
    by (cases "rename_item abspath show_name (fmt02d season) ep_num old_path st")
  with Cons.prems i have e: "e = None" by (cases e) auto
  with Cons.prems i r have "rename_multi_items abspath show_name items st1 = (None, st')"
    by simp
  then have "renamed_count st' = renamed_count st1
     + length (filter (\<lambda>(season, ep_num, old_path).
         abspath old_path \<noteq> abspath (new_path_of show_name (fmt02d season) ep_num old_path)) items)"
    by (rule Cons.IH)
  moreover from r e have "renamed_count st1 = renamed_count st
         + (if abspath old_path = abspath (new_path_of show_name (fmt02d season) ep_num old_path)
            then 0 else 1)"
    by (intro rename_item_count) simp
  ultimately show ?case by (simp add: i)
qed

text \<open>
  Claim C8. An item whose computed target path equals its source path is skipped: the
  state is unchanged (no rename, no error, no count), the run over a batch that contains
  it is the run over the batch without it, and the count reported after a completed run
  is the number of items whose target differs from their source; in the single-season
  loop and in the multi-season loop alike.
\<close>

theorem identity_rename_skipped:
  "abspath old_path = abspath (new_path_of show_name season_str ep_num old_path) \<Longrightarrow>
     rename_item abspath show_name season_str ep_num old_path st = (None, st)
     \<and> rename_tv_items abspath show_name season_str (before @ (ep_num, old_path) # after) st
       = rename_tv_items abspath show_name season_str (before @ after) st
     \<and> (\<forall>st'. rename_tv_items abspath show_name season_str items st = (None, st') \<longrightarrow>
          renamed_count st' = renamed_count st
            + length (filter (\<lambda>(ep_num, old_path).
                abspath old_path \<noteq> abspath (new_path_of show_name season_str ep_num old_path))
                items))
     \<and> (\<forall>season. season_str = fmt02d season \<longrightarrow>
          rename_multi_items abspath show_name (mbefore @ (season, ep_num, old_path) # mafter) st
          = rename_multi_items abspath show_name (mbefore @ mafter) st)
     \<and> (\<forall>st'. rename_multi_items abspath show_name mitems st = (None, st') \<longrightarrow>
          renamed_count st' = renamed_count st
            + length (filter (\<lambda>(season, ep_num, old_path).
                abspath old_path
                \<noteq> abspath (new_path_of show_name (fmt02d season) ep_num old_path))
                mitems))"
proof -
  assume same: "abspath old_path = abspath (new_path_of show_name season_str ep_num old_path)"
  then have 1: "rename_item abspath show_name season_str ep_num old_path st = (None, st)" for st
    by (rule rename_item_identity)
  have "rename_tv_items abspath show_name season_str ((ep_num, old_path) # after) st
        = rename_tv_items abspath show_name season_str after st" for st
    by (simp add: 1)
  then have 2: "rename_tv_items abspath show_name season_str (before @ (ep_num, old_path) # after) st
       = rename_tv_items abspath show_name season_str (before @ after) st"
    by (simp only: rename_tv_items_append [of _ _ _ before])
  have 3: "rename_multi_items abspath show_name (mbefore @ (season, ep_num, old_path) # mafter) st
          = rename_multi_items abspath show_name (mbefore @ mafter) st"
    if s: "season_str = fmt02d season" for season
  proof -
    have "rename_multi_items abspath show_name ((season, ep_num, old_path) # mafter) st
          = rename_multi_items abspath show_name mafter st" for st
      using 1 [of st] by (simp add: s)
    then show ?thesis by (simp only: rename_multi_items_append [of _ _ mbefore])
  qed
  from 1 2 3 rename_tv_items_count rename_multi_items_count show ?thesis by blast
qed

theorem identity_rename_skipped_witness:
  "(\<lambda>p. p) ''/tv/Show.s01.e02.mkv'' = (\<lambda>p. p) (new_path_of ''Show'' ''01'' 2 ''/tv/Show.s01.e02.mkv'')
   \<and> rename_tv_items (\<lambda>p. p) ''Show'' ''01''
        ([(1, ''/tv/a1.mkv'')] @ (2, ''/tv/Show.s01.e02.mkv'') # [(3, ''/tv/c3.mkv'')])
        \<lparr>files = [''/tv/a1.mkv'', ''/tv/Show.s01.e02.mkv'', ''/tv/c3.mkv''],
         dangling = [], overwritten = [], replaced_links = [], renamed_count = 0\<rparr>
       = rename_tv_items (\<lambda>p. p) ''Show'' ''01'' ([(1, ''/tv/a1.mkv'')] @ [(3, ''/tv/c3.mkv'')])
        \<lparr>files = [''/tv/a1.mkv'', ''/tv/Show.s01.e02.mkv'', ''/tv/c3.mkv''],
         dangling = [], overwritten = [], replaced_links = [], renamed_count = 0\<rparr>
   \<and> rename_tv_items (\<lambda>p. p) ''Show'' ''01''
        [(1, ''/tv/a1.mkv''), (2, ''/tv/Show.s01.e02.mkv''), (3, ''/tv/c3.mkv'')]
        \<lparr>files = [''/tv/a1.mkv'', ''/tv/Show.s01.e02.mkv'', ''/tv/c3.mkv''],
         dangling = [], overwritten = [], replaced_links = [], renamed_count = 0\<rparr>
       = (None, \<lparr>files = [''/tv/Show.s01.e03.mkv'', ''/tv/Show.s01.e01.mkv'',
                           ''/tv/Show.s01.e02.mkv''],
                 dangling = [], overwritten = [], replaced_links = [], renamed_count = 2\<rparr>)"
proof -
  have a: "(\<lambda>p. p) ''/tv/Show.s01.e02.mkv''
           = (\<lambda>p. p) (new_path_of ''Show'' ''01'' 2 ''/tv/Show.s01.e02.mkv'')"
    by code_simp
  note t = identity_rename_skipped [of "\<lambda>p. p" "''/tv/Show.s01.e02.mkv''" "''Show''" "''01''" 2, OF a]
  from t have b: "rename_tv_items (\<lambda>p. p) ''Show'' ''01''
        ([(1, ''/tv/a1.mkv'')] @ (2, ''/tv/Show.s01.e02.mkv'') # [(3, ''/tv/c3.mkv'')])
        \<lparr>files = [''/tv/a1.mkv'', ''/tv/Show.s01.e02.mkv'', ''/tv/c3.mkv''],
         dangling = [], overwritten = [], replaced_links = [], renamed_count = 0\<rparr>
       = rename_tv_items (\<lambda>p. p) ''Show'' ''01'' ([(1, ''/tv/a1.mkv'')] @ [(3, ''/tv/c3.mkv'')])
        \<lparr>files = [''/tv/a1.mkv'', ''/tv/Show.s01.e02.mkv'', ''/tv/c3.mkv''],
         dangling = [], overwritten = [], replaced_links = [], renamed_count = 0\<rparr>"
    by blast
  have c: "rename_tv_items (\<lambda>p. p) ''Show'' ''01''
        [(1, ''/tv/a1.mkv''), (2, ''/tv/Show.s01.e02.mkv''), (3, ''/tv/c3.mkv'')]
        \<lparr>files = [''/tv/a1.mkv'', ''/tv/Show.s01.e02.mkv'', ''/tv/c3.mkv''],
         dangling = [], overwritten = [], replaced_links = [], renamed_count = 0\<rparr>
       = (None, \<lparr>files = [''/tv/Show.s01.e03.mkv'', ''/tv/Show.s01.e01.mkv'',
                           ''/tv/Show.s01.e02.mkv''],
                 dangling = [], overwritten = [], replaced_links = [], renamed_count = 2\<rparr>)"
    by code_simp
  from a b c show ?thesis by (intro conjI)
qed

section \<open>The multi-season preview\<close>

text \<open>The season of a subfolder (lines 508 to 511): the file names override the folder.\<close>

definition season_for :: "string \<Rightarrow> string list \<Rightarrow> int" where
  "season_for season_folder videos =
     (case guess_season_from_files videos of
        Some season_from_files \<Rightarrow> season_from_files
      | None \<Rightarrow> extract_season_number_from_folder season_folder)"

definition error_text :: "validation \<Rightarrow> string" where
  "error_text v = (case error_message v of Some msg \<Rightarrow> msg | None \<Rightarrow> [])"

text \<open>
  What \<^verbatim>\<open>build_multi_tv_preview\<close> (lines 487 to 561) leaves behind: the plan
  \<^verbatim>\<open>self.multi_items\<close> that \<^verbatim>\<open>rename_files\<close> consumes, the state of the Rename
  button, the lines \<open>old \<rightarrow> new\<close> written to the preview box, and the error texts.
\<close>

record preview_state =
  multi_items :: "(int \<times> int \<times> string) list option"
  rename_enabled :: bool
  preview_rows :: "(string \<times> string) list"
  errors :: "string list"

text \<open>The loop over the season folders (lines 506 to 534).\<close>

fun multi_loop ::
  "string \<Rightarrow> (string \<times> string list) list
   \<Rightarrow> (int \<times> int \<times> string) list \<times> (string \<times> string) list \<times> string list
   \<Rightarrow> py_error + (int \<times> int \<times> string) list \<times> (string \<times> string) list \<times> string list" where
  "multi_loop show_name [] acc = Inr acc"
| "multi_loop show_name ((season_folder, videos) # rest) (plan, rows, errs) =
     (let season = season_for season_folder videos;
          season_str = fmt02d season;
          base_name = basename season_folder
      in case build_and_verify_episodes videos of
           Inl e \<Rightarrow> Inl e
         | Inr (Ok items) \<Rightarrow>
             multi_loop show_name rest
               (plan @ map (\<lambda>(ep_num, path). (season, ep_num, path)) items,
                rows @ map (\<lambda>(ep_num, path).
                              (basename path, target_name show_name season_str ep_num (ext_of path)))
                         items,
                errs)
         | Inr v \<Rightarrow>
             multi_loop show_name rest
               (plan, rows,
                errs @ [''['' @ base_name @ '' (Season '' @ season_str @ '')]'' @ [CHR 0x0A]
                        @ error_text v]))"

text \<open>
  After the loop (lines 536 to 561). The normalized show name (lines 492 to 495) is a
  parameter; it only appears in the preview lines.
\<close>

definition build_multi_tv_preview ::
  "string \<Rightarrow> (string \<times> string list) list \<Rightarrow> py_error + preview_state" where
  "build_multi_tv_preview show_name season_folders =
     (case multi_loop show_name season_folders ([], [], []) of
        Inl e \<Rightarrow> Inl e
      | Inr (plan, rows, errs) \<Rightarrow>
          if errs \<noteq> [] then
            Inr \<lparr>multi_items = None, rename_enabled = False, preview_rows = rows, errors = errs\<rparr>
          else if plan = [] then
            Inr \<lparr>multi_items = Some [], rename_enabled = False, preview_rows = rows, errors = []\<rparr>
          else
            Inr \<lparr>multi_items = Some plan, rename_enabled = True, preview_rows = rows, errors = []\<rparr>)"

text \<open>
  \<^verbatim>\<open>build_preview\<close> (lines 394 to 398) passes the subfolders, in sorted order, that hold
  at least one video file.
\<close>

definition season_folders_of ::
  "(string \<Rightarrow> string list) \<Rightarrow> string list \<Rightarrow> (string \<times> string list) list" where
  "season_folders_of get_video_files sorted_subfolders =
     filter (\<lambda>(sf, vids). vids \<noteq> []) (map (\<lambda>sf. (sf, get_video_files sf)) sorted_subfolders)"

text \<open>A batch validates when the validator returns \<open>Ok\<close>; its items and its part of the plan.\<close>

definition validates :: "string list \<Rightarrow> bool" where
  "validates videos =
     (case build_and_verify_episodes videos of Inr (Ok items) \<Rightarrow> True | _ \<Rightarrow> False)"

definition validated_items :: "string list \<Rightarrow> (int \<times> string) list" where
  "validated_items videos =
     (case build_and_verify_episodes videos of Inr (Ok items) \<Rightarrow> items | _ \<Rightarrow> [])"

definition season_plan :: "string \<times> string list \<Rightarrow> (int \<times> int \<times> string) list" where
  "season_plan sv =
     map (\<lambda>(ep_num, path). (season_for (fst sv) (snd sv), ep_num, path)) (validated_items (snd sv))"


subsection \<open>Facts about the preview\<close>

lemma build_nonempty:
  assumes "videos \<noteq> []"
  shows "\<exists>v. build_and_verify_episodes videos = Inr v"
proof (cases "filter (\<lambda>p. extract_episode_number p = None) videos = []")
  case True
  define nums where "nums = List.map_filter extract_episode_number videos"
  from True have "length nums = length videos"
    unfolding nums_def by (rule parse_files_length)
  with assms have "nums \<noteq> []" by auto
  then have "sort (remdups nums) \<noteq> []" by (metis set_empty set_remdups set_sort)
  then show ?thesis
    using validate_parsed [OF True] unfolding nums_def by (simp split: if_splits)
next
  case False
  then show ?thesis using validate_unparsed by blast
qed

lemma build_Ok_length:
  assumes "build_and_verify_episodes videos = Inr (Ok items)"
  shows "length items = length videos"
proof (cases "filter (\<lambda>p. extract_episode_number p = None) videos = []")
  case True
  define nums where "nums = List.map_filter extract_episode_number videos"
  from True have len: "length nums = length videos"
    unfolding nums_def by (rule parse_files_length)
  from assms have "items = sort_key fst (zip nums videos)"
    using validate_parsed [OF True] unfolding nums_def by (simp split: if_splits)
  with len show ?thesis by simp
next
  case False
  with assms show ?thesis using validate_unparsed [OF False] by simp
qed

lemma multi_loop_result:
  assumes "list_all (\<lambda>sv. snd sv \<noteq> []) sfs"
  shows "\<exists>rows' new_errs.
           multi_loop show_name sfs (plan, rows, errs)
             = Inr (plan @ concat (map season_plan sfs), rows', errs @ new_errs)
           \<and> (new_errs = []) = list_all (\<lambda>sv. validates (snd sv)) sfs"
  using assms
proof (induction sfs arbitrary: plan rows errs)
  case Nil
  then show ?case by simp
next
  case (Cons sv rest)
  obtain season_folder videos where sv: "sv = (season_folder, videos)" by (cases sv)
  from Cons.prems sv have ne: "videos \<noteq> []" and rest: "list_all (\<lambda>sv. snd sv \<noteq> []) rest"
    by simp_all
  from build_nonempty [OF ne] obtain v where v: "build_and_verify_episodes videos = Inr v"
    by blast
  show ?case
  proof (cases "\<exists>items. v = Ok items")
    case True
    then obtain items where ok: "v = Ok items" by blast
    define plan1 where
      "plan1 = plan @ map (\<lambda>(ep_num, path). (season_for season_folder videos, ep_num, path)) items"
    define rows1 where
      "rows1 = rows @ map (\<lambda>(ep_num, path). (basename path,
          target_name show_name (fmt02d (season_for season_folder videos)) ep_num (ext_of path)))
          items"
    have step: "multi_loop show_name (sv # rest) (plan, rows, errs)
                = multi_loop show_name rest (plan1, rows1, errs)"
      by (simp add: sv v ok Let_def plan1_def rows1_def)
    have sp: "season_plan sv
              = map (\<lambda>(ep_num, path). (season_for season_folder videos, ep_num, path)) items"
      by (simp add: season_plan_def validated_items_def sv v ok)
    have val: "validates (snd sv)" by (simp add: validates_def sv v ok)
    from Cons.IH [OF rest, of plan1 rows1 errs] obtain rows' new_errs where
      r: "multi_loop show_name rest (plan1, rows1, errs)
          = Inr (plan1 @ concat (map season_plan rest), rows', errs @ new_errs)"
      and e: "(new_errs = []) = list_all (\<lambda>sv. validates (snd sv)) rest"
      by blast
    from step r sp have "multi_loop show_name (sv # rest) (plan, rows, errs)
          = Inr (plan @ concat (map season_plan (sv # rest)), rows', errs @ new_errs)"
      by (simp add: plan1_def)
    moreover from e val have "(new_errs = []) = list_all (\<lambda>sv. validates (snd sv)) (sv # rest)"
      by simp
    ultimately show ?thesis by blast
  next
    case False
    define label where
      "label = ''['' @ basename season_folder @ '' (Season ''
               @ fmt02d (season_for season_folder videos) @ '')]'' @ [CHR 0x0A] @ error_text v"
    have step: "multi_loop show_name (sv # rest) (plan, rows, errs)
                = multi_loop show_name rest (plan, rows, errs @ [label])"
      using False by (cases v) (simp_all add: sv v Let_def label_def)
    have sp: "season_plan sv = []"
      using False by (cases v) (simp_all add: season_plan_def validated_items_def sv v)
    have val: "\<not> validates (snd sv)"
      using False by (cases v) (simp_all add: validates_def sv v)
    from Cons.IH [OF rest, of plan rows "errs @ [label]"] obtain rows' new_errs where
      r: "multi_loop show_name rest (plan, rows, errs @ [label])
          = Inr (plan @ concat (map season_plan rest), rows', (errs @ [label]) @ new_errs)"
      by blast
    from step r sp have "multi_loop show_name (sv # rest) (plan, rows, errs)
          = Inr (plan @ concat (map season_plan (sv # rest)), rows', errs @ (label # new_errs))"
      by simp
    moreover from val have "(label # new_errs = [])
          = list_all (\<lambda>sv. validates (snd sv)) (sv # rest)"
      by simp
    ultimately show ?thesis by blast
  qed
qed

lemma season_folders_nonempty:
  "list_all (\<lambda>sv. snd sv \<noteq> []) (season_folders_of get_video_files sorted_subfolders)"
  by (auto simp: season_folders_of_def list_all_iff)

lemma season_plan_nonempty:
  assumes "snd sv \<noteq> []" and "validates (snd sv)"
  shows "season_plan sv \<noteq> []"
proof -
  from assms(2) obtain items where ok: "build_and_verify_episodes (snd sv) = Inr (Ok items)"
    by (auto simp: validates_def split: sum.splits validation.splits)
  then have "length items = length (snd sv)" by (rule build_Ok_length)
  with assms(1) have "items \<noteq> []" by auto
  with ok show ?thesis by (simp add: season_plan_def validated_items_def)
qed

text \<open>
  Claim C2. In a multi-season run, if the batch of at least one season subfolder fails
  validation, no plan is kept (\<^verbatim>\<open>self.multi_items\<close> is \<open>None\<close>, also for the
  subfolders that validated), the Rename button is disabled and \<^verbatim>\<open>rename_files\<close>
  renames nothing; when every batch validates, the plan is the concatenation of the
  plans of all the subfolders, in order, and the button is enabled.
\<close>

theorem multi_season_all_or_nothing:
  "(\<not> list_all (\<lambda>sv. validates (snd sv)) (season_folders_of get_video_files sorted_subfolders)
      \<longrightarrow> (\<exists>st. build_multi_tv_preview show_name
                    (season_folders_of get_video_files sorted_subfolders) = Inr st
                \<and> multi_items st = None \<and> \<not> rename_enabled st
                \<and> rename_files_multi abspath show_name (multi_items st) fs = (None, fs)))
   \<and> (list_all (\<lambda>sv. validates (snd sv)) (season_folders_of get_video_files sorted_subfolders)
        \<and> season_folders_of get_video_files sorted_subfolders \<noteq> []
      \<longrightarrow> (\<exists>st. build_multi_tv_preview show_name
                    (season_folders_of get_video_files sorted_subfolders) = Inr st
                \<and> multi_items st
                    = Some (concat (map season_plan
                                      (season_folders_of get_video_files sorted_subfolders)))
                \<and> rename_enabled st \<and> errors st = []))"
proof -
  define sfs where "sfs = season_folders_of get_video_files sorted_subfolders"
  have ne: "list_all (\<lambda>sv. snd sv \<noteq> []) sfs"
    unfolding sfs_def by (rule season_folders_nonempty)
  from multi_loop_result [OF ne, of show_name "[]" "[]" "[]"] obtain rows' new_errs where
    r: "multi_loop show_name sfs ([], [], []) = Inr (concat (map season_plan sfs), rows', new_errs)"
    and e: "(new_errs = []) = list_all (\<lambda>sv. validates (snd sv)) sfs"
    by auto
  have 1: "\<exists>st. build_multi_tv_preview show_name sfs = Inr st
                \<and> multi_items st = None \<and> \<not> rename_enabled st
                \<and> rename_files_multi abspath show_name (multi_items st) fs = (None, fs)"
    if "\<not> list_all (\<lambda>sv. validates (snd sv)) sfs"
  proof -
    from that e have "new_errs \<noteq> []" by simp
    then have "build_multi_tv_preview show_name sfs
      = Inr \<lparr>multi_items = None, rename_enabled = False, preview_rows = rows', errors = new_errs\<rparr>"
      by (simp add: build_multi_tv_preview_def r)
    then show ?thesis by (simp add: rename_files_multi_def)
  qed
  have 2: "\<exists>st. build_multi_tv_preview show_name sfs = Inr st
                \<and> multi_items st = Some (concat (map season_plan sfs))
                \<and> rename_enabled st \<and> errors st = []"
    if "list_all (\<lambda>sv. validates (snd sv)) sfs \<and> sfs \<noteq> []"
  proof -
    from that e have ee: "new_errs = []" by simp
    from that obtain sv rest where c: "sfs = sv # rest" by (cases sfs) auto
    with ne that have "snd sv \<noteq> []" "validates (snd sv)" by simp_all
    then have "season_plan sv \<noteq> []" by (rule season_plan_nonempty)
    with c have "concat (map season_plan sfs) \<noteq> []" by simp
    then have "build_multi_tv_preview show_name sfs
      = Inr \<lparr>multi_items = Some (concat (map season_plan sfs)), rename_enabled = True,
             preview_rows = rows', errors = []\<rparr>"
      by (simp add: build_multi_tv_preview_def r ee)
    then show ?thesis by simp
  qed
  from 1 2 show ?thesis unfolding sfs_def by blast
qed


theorem multi_season_all_or_nothing_witness:
  "season_folders_of
     (\<lambda>sf. case map_of [(''/tv/Show/Season 1'', [''/tv/Show/Season 1/e1.mkv'', ''/tv/Show/Season 1/e2.mkv'']),
                          (''/tv/Show/Season 2'', [''/tv/Show/Season 2/e1.mkv'', ''/tv/Show/Season 2/x/e1.mkv''])] sf
           of Some vids \<Rightarrow> vids | None \<Rightarrow> [])
     [''/tv/Show/Extras'', ''/tv/Show/Season 1'', ''/tv/Show/Season 2'']
   = [(''/tv/Show/Season 1'', [''/tv/Show/Season 1/e1.mkv'', ''/tv/Show/Season 1/e2.mkv'']),
      (''/tv/Show/Season 2'', [''/tv/Show/Season 2/e1.mkv'', ''/tv/Show/Season 2/x/e1.mkv''])]
   \<and> validates [''/tv/Show/Season 1/e1.mkv'', ''/tv/Show/Season 1/e2.mkv'']
   \<and> \<not> validates [''/tv/Show/Season 2/e1.mkv'', ''/tv/Show/Season 2/x/e1.mkv'']
   \<and> (\<exists>st. build_multi_tv_preview ''Show''
         [(''/tv/Show/Season 1'', [''/tv/Show/Season 1/e1.mkv'', ''/tv/Show/Season 1/e2.mkv'']),
          (''/tv/Show/Season 2'', [''/tv/Show/Season 2/e1.mkv'', ''/tv/Show/Season 2/x/e1.mkv''])]
         = Inr st
         \<and> multi_items st = None \<and> \<not> rename_enabled st)
   \<and> build_multi_tv_preview ''Show''
         [(''/tv/Show/Season 1'', [''/tv/Show/Season 1/e1.mkv'', ''/tv/Show/Season 1/e2.mkv'']),
          (''/tv/Show/Season 2'', [''/tv/Show/Season 2/e1.mkv'', ''/tv/Show/Season 2/x/e1.mkv''])]
       = Inr \<lparr>multi_items = None, rename_enabled = False,
              preview_rows = [(''e1.mkv'', ''Show.s01.e01.mkv''), (''e2.mkv'', ''Show.s01.e02.mkv'')],
              errors = [''[Season 2 (Season 02)]'' @ [CHR 0x0A]
                 @ ''Duplicate episode numbers found (fix manually before renaming):''
                 @ [CHR 0x0A] @ ''01'']\<rparr>"
proof -
  let ?gvf = "\<lambda>sf. case map_of [(''/tv/Show/Season 1'', [''/tv/Show/Season 1/e1.mkv'', ''/tv/Show/Season 1/e2.mkv'']),
                          (''/tv/Show/Season 2'', [''/tv/Show/Season 2/e1.mkv'', ''/tv/Show/Season 2/x/e1.mkv''])] sf
           of Some vids \<Rightarrow> vids | None \<Rightarrow> []"
  let ?subs = "[''/tv/Show/Extras'', ''/tv/Show/Season 1'', ''/tv/Show/Season 2'']"
  let ?sfs = "[(''/tv/Show/Season 1'', [''/tv/Show/Season 1/e1.mkv'', ''/tv/Show/Season 1/e2.mkv'']),
      (''/tv/Show/Season 2'', [''/tv/Show/Season 2/e1.mkv'', ''/tv/Show/Season 2/x/e1.mkv''])]"
  have a: "season_folders_of ?gvf ?subs = ?sfs" by code_simp
  have b: "validates [''/tv/Show/Season 1/e1.mkv'', ''/tv/Show/Season 1/e2.mkv'']" by code_simp
  have c: "\<not> validates [''/tv/Show/Season 2/e1.mkv'', ''/tv/Show/Season 2/x/e1.mkv'']"
    by code_simp
  from c have h: "\<not> list_all (\<lambda>sv. validates (snd sv)) (season_folders_of ?gvf ?subs)"
    unfolding a by simp
  from multi_season_all_or_nothing [of ?gvf ?subs "''Show''" "\<lambda>p. p" "\<lparr>files = [], dangling = [], overwritten = [], replaced_links = [], renamed_count = 0\<rparr>"] h
  have "\<exists>st. build_multi_tv_preview ''Show'' (season_folders_of ?gvf ?subs) = Inr st
         \<and> multi_items st = None \<and> \<not> rename_enabled st"
    by blast
  then have d: "\<exists>st. build_multi_tv_preview ''Show'' ?sfs = Inr st
         \<and> multi_items st = None \<and> \<not> rename_enabled st"
    unfolding a .
  have e: "build_multi_tv_preview ''Show'' ?sfs
       = Inr \<lparr>multi_items = None, rename_enabled = False,
              preview_rows = [(''e1.mkv'', ''Show.s01.e01.mkv''), (''e2.mkv'', ''Show.s01.e02.mkv'')],
              errors = [''[Season 2 (Season 02)]'' @ [CHR 0x0A]
                 @ ''Duplicate episode numbers found (fix manually before renaming):''
                 @ [CHR 0x0A] @ ''01'']\<rparr>"
    by code_simp
  from a b c d e show ?thesis by (intro conjI)
qed

end
